theory Spec2Isabelle
  imports Main "HOL-Library.AList" "HOL-Library.Multiset" "HOL-Library.Sublist"
begin

section \<open>Errors and the remote content provider\<close>

text \<open>
  A JavaScript exception is a value: \<open>Error msg\<close> for \<^verbatim>\<open>new Error(msg)\<close> and
  \<open>TypeError msg\<close> for the runtime's own failure of a property read on
  \<^verbatim>\<open>undefined\<close>. A function that may throw returns \<open>error + 'a\<close>.
\<close>

datatype error = Error string | TypeError string

text \<open>
  The part of a \<^verbatim>\<open>fetch\<close> response the library reads: \<^verbatim>\<open>response.ok\<close>,
  \<^verbatim>\<open>response.statusText\<close> and the body (\<^verbatim>\<open>response.text()\<close> or
  \<^verbatim>\<open>response.arrayBuffer()\<close>), whose reading may reject (\<open>Inl\<close>).
\<close>

record response =
  ok :: bool
  statusText :: string
  body :: "error + string"

text \<open>
  The network is a parameter: \<open>fetch url n\<close> is what the \<open>n\<close>-th request of one call
  to the target \<open>url\<close> yields, \<open>Inl\<close> when \<^verbatim>\<open>fetch\<close> itself rejects.
\<close>

type_synonym fetch = "string \<Rightarrow> nat \<Rightarrow> error + response"

text \<open>What a call does besides returning: the requests it sends and the timers it awaits (ms).\<close>

datatype event = Request string | Sleep nat

section \<open>The retry loops of the library (\<^verbatim>\<open>fetchFile\<close>, \<^verbatim>\<open>downloadFile\<close>)\<close>

text \<open>The body of the \<^verbatim>\<open>try\<close> block of \<^verbatim>\<open>fetchFile\<close>, for attempt \<open>n\<close>.\<close>

definition fetchFile_try :: "fetch \<Rightarrow> string \<Rightarrow> nat \<Rightarrow> error + string" where
  "fetchFile_try net url n =
     (case net url n of
        Inl e \<Rightarrow> Inl e
      | Inr r \<Rightarrow>
          if \<not> ok r then Inl (Error (''Failed to fetch file: '' @ statusText r))
          else body r)"

text \<open>
  \<^verbatim>\<open>for (let attempt = 1; attempt <= 5; attempt++)\<close> of \<^verbatim>\<open>fetchFile\<close>: the loop
  from \<open>attempt\<close> on, with the events so far.
\<close>

function fetchFile_loop ::
  "fetch \<Rightarrow> string \<Rightarrow> nat \<Rightarrow> event list \<Rightarrow> (error + string) \<times> event list" where
  "fetchFile_loop net url attempt tr =
     (if attempt \<le> 5 then
        (case fetchFile_try net url attempt of
           Inr data \<Rightarrow> (Inr data, tr @ [Request url])
         | Inl e \<Rightarrow>
             if attempt = 5
             then (Inl (Error (''Failed to fetch file after 5 attempts: '' @ url)),
                   tr @ [Request url])
             else fetchFile_loop net url (attempt + 1)
                    (tr @ [Request url, Sleep (1000 * 2 ^ attempt)]))
      else (Inr [], tr))"
  by pat_completeness auto
termination
  by (relation "measure (\<lambda>(net, url, attempt, tr). 6 - attempt)") auto

declare fetchFile_loop.simps [simp del]

definition fetchFile :: "fetch \<Rightarrow> string \<Rightarrow> (error + string) \<times> event list" where
  "fetchFile net url = fetchFile_loop net url 1 [Sleep 750]"

text \<open>
  The local file system is a map from paths to contents. \<^verbatim>\<open>fs.writeFile\<close> may throw:
  \<open>wr filePath n\<close> is \<open>None\<close> when the write of attempt \<open>n\<close> to \<open>filePath\<close> succeeds,
  and otherwise the error thrown together with what the failed write leaves in the file
  (\<open>None\<close> when it leaves the file as it was).
\<close>

type_synonym filesystem = "string \<rightharpoonup> string"

type_synonym disk = "string \<Rightarrow> nat \<Rightarrow> (error \<times> string option) option"

definition left_behind :: "string \<Rightarrow> string option \<Rightarrow> filesystem \<Rightarrow> filesystem" where
  "left_behind filePath left fs = (case left of None \<Rightarrow> fs | Some c \<Rightarrow> fs(filePath \<mapsto> c))"

text \<open>
  The body of the \<^verbatim>\<open>try\<close> block of \<^verbatim>\<open>downloadFile\<close>, for attempt \<open>n\<close>: the request,
  the status check, the reading of the body and the write are all inside it. It yields
  the bytes written, or the error caught with what a failed write left in the file.
\<close>

definition downloadFile_try ::
  "fetch \<Rightarrow> disk \<Rightarrow> string \<Rightarrow> string \<Rightarrow> nat \<Rightarrow> (error \<times> string option) + string" where
  "downloadFile_try net wr url filePath n =
     (case net url n of
        Inl e \<Rightarrow> Inl (e, None)
      | Inr r \<Rightarrow>
          if \<not> ok r then Inl (Error (''Failed to fetch file: '' @ statusText r), None)
          else (case body r of
                  Inl e \<Rightarrow> Inl (e, None)
                | Inr bytes \<Rightarrow>
                    (case wr filePath n of
                       None \<Rightarrow> Inr bytes
                     | Some failure \<Rightarrow> Inl failure)))"

function downloadFile_loop ::
  "fetch \<Rightarrow> disk \<Rightarrow> string \<Rightarrow> string \<Rightarrow> nat \<Rightarrow> filesystem \<Rightarrow> event list
     \<Rightarrow> (error + unit) \<times> filesystem \<times> event list" where
  "downloadFile_loop net wr url filePath attempt fs tr =
     (if attempt \<le> 5 then
        (case downloadFile_try net wr url filePath attempt of
           Inr bytes \<Rightarrow> (Inr (), fs(filePath \<mapsto> bytes), tr @ [Request url])
         | Inl failure \<Rightarrow>
             if attempt = 5
             then (Inl (Error (''Failed to download file after 5 attempts: '' @ url)),
                   left_behind filePath (snd failure) fs, tr @ [Request url])
             else downloadFile_loop net wr url filePath (attempt + 1)
                    (left_behind filePath (snd failure) fs)
                    (tr @ [Request url, Sleep (1000 * 2 ^ attempt)]))
      else (Inr (), fs, tr))"
  by pat_completeness auto
termination
  by (relation "measure (\<lambda>(net, wr, url, filePath, attempt, fs, tr). 6 - attempt)") auto

declare downloadFile_loop.simps [simp del]

definition downloadFile ::
  "fetch \<Rightarrow> disk \<Rightarrow> string \<Rightarrow> string \<Rightarrow> filesystem
     \<Rightarrow> (error + unit) \<times> filesystem \<times> event list" where
  "downloadFile net wr url filePath fs = downloadFile_loop net wr url filePath 1 fs []"

text \<open>
  The events of a call whose first \<open>n\<close> attempts fail and which stops at attempt
  \<open>n + 1\<close>: a request and a backoff of \<open>1000 * 2 ^ k\<close> ms for each failed attempt
  \<open>k\<close>, then the last request.
\<close>

definition backoff_trace :: "string \<Rightarrow> nat \<Rightarrow> nat \<Rightarrow> event list" where
  "backoff_trace url a m =
     concat (map (\<lambda>k. [Request url, Sleep (1000 * 2 ^ k)]) [a..<m]) @ [Request url]"

definition requests :: "event list \<Rightarrow> nat" where
  "requests tr = length (filter (\<lambda>e. case e of Request u \<Rightarrow> True | Sleep d \<Rightarrow> False) tr)"

section \<open>File classification (\<^verbatim>\<open>getFileType\<close>)\<close>

text \<open>
  \<^verbatim>\<open>String.prototype.toLowerCase\<close> on the Latin letters; strings are lists of 8-bit
  characters here, and every extension of the table below is ASCII.
\<close>

definition lower_char :: "char \<Rightarrow> char" where
  "lower_char c =
     (let n = (of_char c :: nat) in if 65 \<le> n \<and> n \<le> 90 then char_of (n + 32) else c)"

definition toLowerCase :: "string \<Rightarrow> string" where
  "toLowerCase s = map lower_char s"

text \<open>
  \<^verbatim>\<open>path.extname\<close> of Node.js for POSIX paths: the extension of the last path segment
  (trailing slashes ignored), from its last dot to its end; empty when the segment has no
  dot, when its last dot is its first character, and when the segment is \<^verbatim>\<open>..\<close>.
\<close>

definition last_segment :: "string \<Rightarrow> string" where
  "last_segment p =
     rev (takeWhile (\<lambda>c. c \<noteq> CHR ''/'') (dropWhile (\<lambda>c. c = CHR ''/'') (rev p)))"

definition extname :: "string \<Rightarrow> string" where
  "extname p =
     (let b = last_segment p;
          tail = rev (takeWhile (\<lambda>c. c \<noteq> CHR ''.'') (rev b))
      in if CHR ''.'' \<notin> set b then []
         else if length b = Suc (length tail) then []
         else if b = ''..'' then []
         else CHR ''.'' # tail)"

definition getFileType :: "string \<Rightarrow> string" where
  "getFileType file =
     (let ext = toLowerCase (extname file) in
      if ext \<in> set [''.js'', ''.jsx'', ''.ts'', ''.tsx''] then ''JavaScript/TypeScript''
      else if ext = ''.json'' then ''JSON''
      else if ext = ''.html'' then ''HTML''
      else if ext = ''.css'' then ''CSS''
      else if ext = ''.md'' then ''Markdown''
      else if ext \<in> set [''.mp4'', ''.avi'', ''.mov'', ''.wmv'', ''.gif'', ''.png'', ''.jpg'',
                          ''.jpeg'', ''.tiff'', ''.svg'', ''.bmp'', ''.webp'', ''.ico'', ''.webm'',
                          ''.mov'', ''.ttf'', ''.otf'', ''.woff'', ''.woff2'']
      then ''Media''
      else ''Unknown'')"

section \<open>The data model: jobs and the key-value store\<close>

record fileinfo =
  path :: string
  download_url :: string

text \<open>\<^verbatim>\<open>Job["status"]\<close>: \<^verbatim>\<open>"queued" | "in-progress" | "completed" | "failed"\<close>.\<close>

datatype status = Queued | InProgress | Completed | Failed

text \<open>
  A \<^verbatim>\<open>Job\<close> as \<^verbatim>\<open>queueGroupedJobs\<close> builds it (the fields \<^verbatim>\<open>id\<close> and \<^verbatim>\<open>file\<close> are \<open>job_id\<close> and \<open>job_file\<close>);
  \<^verbatim>\<open>result\<close> is absent until \<^verbatim>\<open>processJob\<close> assigns it.
\<close>

record job =
  job_id :: string
  job_file :: fileinfo
  groupId :: string
  status :: status
  owner :: string
  repo :: string
  createdAt :: int
  updatedAt :: int
  result :: "string option"

text \<open>The one field the Enqueuer reads of a commit of the provider's commit list.\<close>

record commit =
  sha :: string

text \<open>
  What \<^verbatim>\<open>kv.get\<close> hands back: the store client parses a stored JSON text into an
  object and returns any other text as the string it is. So a key written with
  \<^verbatim>\<open>JSON.stringify(job)\<close> reads as a job object (\<open>VJob\<close>), one written with
  \<^verbatim>\<open>JSON.stringify(commit)\<close> as a commit object (\<open>VCommit\<close>), and a marker
  written as \<^verbatim>\<open>"queued"\<close>, \<^verbatim>\<open>"completed"\<close> or \<^verbatim>\<open>"failed"\<close> as that string
  (\<open>VStr\<close>). \<open>VEmpty\<close> is the empty object \<^verbatim>\<open>{}\<close> the code substitutes for a
  missing key (\<^verbatim>\<open>?? {}\<close>).
\<close>

datatype kvalue = VStr string | VJob job | VCommit commit | VEmpty

text \<open>
  Property reads. A property that the value does not have reads as \<^verbatim>\<open>undefined\<close>
  (\<open>None\<close>): a string has no \<^verbatim>\<open>status\<close>, \<^verbatim>\<open>updatedAt\<close>, \<^verbatim>\<open>owner\<close>,
  \<^verbatim>\<open>repo\<close>, \<^verbatim>\<open>file\<close> or \<^verbatim>\<open>sha\<close>.
\<close>

fun get_status :: "kvalue \<Rightarrow> status option" where
  "get_status (VJob j) = Some (status j)"
| "get_status _ = None"

fun get_updatedAt :: "kvalue \<Rightarrow> int option" where
  "get_updatedAt (VJob j) = Some (updatedAt j)"
| "get_updatedAt _ = None"

fun get_owner :: "kvalue \<Rightarrow> string option" where
  "get_owner (VJob j) = Some (owner j)"
| "get_owner _ = None"

fun get_repo :: "kvalue \<Rightarrow> string option" where
  "get_repo (VJob j) = Some (repo j)"
| "get_repo _ = None"

fun get_file :: "kvalue \<Rightarrow> fileinfo option" where
  "get_file (VJob j) = Some (job_file j)"
| "get_file _ = None"

fun get_result :: "kvalue \<Rightarrow> string option" where
  "get_result (VJob j) = result j"
| "get_result _ = None"

fun get_sha :: "kvalue \<Rightarrow> string option" where
  "get_sha (VCommit c) = Some (sha c)"
| "get_sha _ = None"

text \<open>JavaScript truthiness (\<^verbatim>\<open>Boolean(v)\<close>, \<^verbatim>\<open>!v\<close>): of these values only the empty string is falsy.\<close>

fun truthy :: "kvalue \<Rightarrow> bool" where
  "truthy (VStr s) = (s \<noteq> [])"
| "truthy _ = True"

text \<open>
  The store: keys in the order a scan yields them. \<^verbatim>\<open>kv.set\<close> overwrites what one
  key holds, as a whole. The two scan patterns of the code are a literal prefix followed by
  \<^verbatim>\<open>*\<close> (\<^verbatim>\<open>job:*\<close> and \<^verbatim>\<open>group:<groupId>:*\<close>, the group id a UUID), so
  \<open>scanIterator\<close> takes the prefix.
\<close>

type_synonym kvstore = "(string \<times> kvalue) list"

definition kv_get :: "string \<Rightarrow> kvstore \<Rightarrow> kvalue option" where
  "kv_get k s = map_of s k"

definition kv_set :: "string \<Rightarrow> kvalue \<Rightarrow> kvstore \<Rightarrow> kvstore" where
  "kv_set k v s = AList.update k v s"

definition scanIterator :: "string \<Rightarrow> kvstore \<Rightarrow> string list" where
  "scanIterator pfx s = filter (prefix pfx) (map fst s)"

definition job_key :: "string \<Rightarrow> string" where
  "job_key i = ''job:'' @ i"

definition group_prefix :: "string \<Rightarrow> string" where
  "group_prefix g = ''group:'' @ g @ '':''"

definition marker_key :: "string \<Rightarrow> string \<Rightarrow> string" where
  "marker_key g i = group_prefix g @ i"

definition metadata_key :: "string \<Rightarrow> string \<Rightarrow> string" where
  "metadata_key repoKey f = repoKey @ '':'' @ f @ '':metadata''"

section \<open>Listing jobs (\<^verbatim>\<open>getJobs\<close>)\<close>

text \<open>
  The comparator \<^verbatim>\<open>(a, b) => a.updatedAt - b.updatedAt\<close>: \<open>None\<close> is \<^verbatim>\<open>NaN\<close>, which
  \<^verbatim>\<open>Array.prototype.sort\<close> takes as 0. The sort is stable; for values that all have
  \<^verbatim>\<open>updatedAt\<close>, or that all lack it, the comparator is consistent and the stable
  insertion sort below is the order every conforming engine produces.
\<close>

definition compare_updatedAt :: "kvalue \<Rightarrow> kvalue \<Rightarrow> int option" where
  "compare_updatedAt a b =
     (case (get_updatedAt a, get_updatedAt b) of
        (Some x, Some y) \<Rightarrow> Some (x - y)
      | _ \<Rightarrow> None)"

definition sorts_after :: "kvalue \<Rightarrow> kvalue \<Rightarrow> bool" where
  "sorts_after a b = (case compare_updatedAt a b of Some d \<Rightarrow> 0 < d | None \<Rightarrow> False)"

fun sort_insert :: "kvalue \<Rightarrow> kvalue list \<Rightarrow> kvalue list" where
  "sort_insert x [] = [x]"
| "sort_insert x (y # ys) = (if sorts_after x y then y # sort_insert x ys else x # y # ys)"

definition array_sort :: "kvalue list \<Rightarrow> kvalue list" where
  "array_sort xs = foldr sort_insert xs []"

definition getJobs :: "string \<Rightarrow> kvstore \<Rightarrow> kvalue list" where
  "getJobs pfx s =
     (let jobIds = scanIterator pfx s;
          jobs = map (\<lambda>key. case kv_get key s of None \<Rightarrow> VEmpty | Some v \<Rightarrow> v) jobIds
      in array_sort (filter truthy jobs))"

text \<open>\<^verbatim>\<open>Date.now() - job.updatedAt > staleTime\<close>; a comparison with \<^verbatim>\<open>NaN\<close> is false.\<close>

definition filterForStaleJobs :: "int \<Rightarrow> kvalue list \<Rightarrow> int \<Rightarrow> kvalue list" where
  "filterForStaleJobs date_now jobs staleTime =
     filter (\<lambda>job. case get_updatedAt job of
                      Some u \<Rightarrow> date_now - u > staleTime
                    | None \<Rightarrow> False) jobs"

section \<open>Per-job execution (\<^verbatim>\<open>processJob\<close>) and its collaborators\<close>

record astData =
  ast_file :: string
  ast_type :: string
  ast :: string
  summary :: string
  sourceCode :: string

record metadata =
  name :: string
  description :: string
  demoLink :: string

text \<open>
  What one invocation of the worker takes from outside: the clock, the network, the
  parsers behind \<^verbatim>\<open>generateAST\<close> (which catches every error of theirs), the
  summarising model, \<^verbatim>\<open>JSON.stringify\<close> on a string, the provider's repository
  record, and the vector store's upload.
\<close>

record env =
  Date_now :: int
  fetch_net :: fetch
  generateAST :: "string \<Rightarrow> string \<Rightarrow> string"
  summarizeFileOpenAI :: "string \<Rightarrow> string \<Rightarrow> error + string option"
  JSON_stringify :: "string \<Rightarrow> string"
  fetchRepoMetadata :: "string option \<Rightarrow> string option \<Rightarrow> metadata option"
  uploadAndPoll :: "string \<Rightarrow> error + unit"

text \<open>
  What the worker changes: the key-value store, the local files written by
  \<^verbatim>\<open>saveASTsToFile\<close> (in order) and the files handed to the vector store.
\<close>

type_synonym document = "(string \<times> string option) list"

record world =
  kv :: kvstore
  written :: "(string \<times> document) list"
  uploaded :: "string list"

text \<open>\<^verbatim>\<open>fileInfoToAstData\<close>: fetch the file, parse it, summarise it. It rejects when the fetch is exhausted or the summary fails.\<close>

definition fileInfoToAstData :: "env \<Rightarrow> fileinfo \<Rightarrow> error + astData" where
  "fileInfoToAstData env f =
     (case fst (fetchFile (fetch_net env) (download_url f)) of
        Inl e \<Rightarrow> Inl e
      | Inr fileContent \<Rightarrow>
          let tree = generateAST env (path f) fileContent in
          (case summarizeFileOpenAI env (path f) fileContent of
             Inl e \<Rightarrow> Inl e
           | Inr s \<Rightarrow>
               Inr \<lparr>ast_file = path f, ast_type = getFileType (path f), ast = tree,
                    summary = (case s of None \<Rightarrow> [] | Some t \<Rightarrow> t),
                    sourceCode = JSON_stringify env fileContent\<rparr>))"

text \<open>
  \<^verbatim>\<open>processFile\<close> calls \<^verbatim>\<open>fileInfoToAstData(file)\<close> without \<^verbatim>\<open>await\<close>: \<open>astData\<close>
  is the pending promise, whose outcome the function never sees, and
  \<^verbatim>\<open>JSON.stringify\<close> of a promise object is the text \<^verbatim>\<open>{}\<close>. So the function
  returns that text whatever the generation does.
\<close>

definition processFile :: "env \<Rightarrow> fileinfo \<Rightarrow> error + string" where
  "processFile env f = (let astData = fileInfoToAstData env f in Inr ''{}'')"

definition saveJobWithStatus :: "env \<Rightarrow> job \<Rightarrow> status \<Rightarrow> kvstore \<Rightarrow> job \<times> kvstore" where
  "saveJobWithStatus env j st s =
     (let j' = j\<lparr>status := st, updatedAt := Date_now env\<rparr>
      in (j', kv_set (job_key (job_id j')) (VJob j') s))"

definition handleJobFailure :: "env \<Rightarrow> job \<Rightarrow> world \<Rightarrow> world" where
  "handleJobFailure env j w =
     (let (j', s') = saveJobWithStatus env j Failed (kv w)
      in w\<lparr>kv := kv_set (marker_key (groupId j') (job_id j')) (VStr ''failed'') s'\<rparr>)"

text \<open>\<^verbatim>\<open>replaceAll(/_/g, "ZzDasHzZ")\<close>.\<close>

definition replace_underscores :: "string \<Rightarrow> string" where
  "replace_underscores s = concat (map (\<lambda>c. if c = CHR ''_'' then ''ZzDasHzZ'' else [c]) s)"

text \<open>\<^verbatim>\<open>getASTFilename\<close>; a method call on \<^verbatim>\<open>undefined\<close> throws.\<close>

definition getASTFilename :: "string option \<Rightarrow> string option \<Rightarrow> error + string" where
  "getASTFilename ow rp =
     (case ow of
        None \<Rightarrow> Inl (TypeError ''Cannot read properties of undefined (reading replaceAll)'')
      | Some o' \<Rightarrow>
          (case rp of
             None \<Rightarrow> Inl (TypeError ''Cannot read properties of undefined (reading replaceAll)'')
           | Some r \<Rightarrow> Inr (replace_underscores o' @ ''_'' @ replace_underscores r @ ''-asts.json'')))"

text \<open>\<^verbatim>\<open>Object.fromEntries\<close>: a later entry overwrites an earlier one with the same key.\<close>

definition object_fromEntries :: "(string \<times> 'v) list \<Rightarrow> (string \<times> 'v) list" where
  "object_fromEntries es = foldl (\<lambda>obj (k, v). AList.update k v obj) [] es"

text \<open>
  The template literal on the metadata: \<^verbatim>\<open>fetchRepoMetadata(...) ?? {}\<close> is an object
  in both cases, and an object in a template literal is the text \<^verbatim>\<open>[object Object]\<close>.
\<close>

definition template_literal :: "metadata option \<Rightarrow> string" where
  "template_literal m = (case m of None \<Rightarrow> ''[object Object]'' | Some x \<Rightarrow> ''[object Object]'')"

text \<open>The entry \<^verbatim>\<open>[job.file.path, job.result]\<close>; reading \<^verbatim>\<open>path\<close> of an absent \<^verbatim>\<open>file\<close> throws.\<close>

definition job_entry :: "kvalue \<Rightarrow> (string \<times> string option) option" where
  "job_entry v = (case get_file v of None \<Rightarrow> None | Some f \<Rightarrow> Some (path f, get_result v))"

definition assembleDocument :: "env \<Rightarrow> kvalue list \<Rightarrow> error + document" where
  "assembleDocument env jobs =
     (case jobs of
        [] \<Rightarrow> Inr []
      | j0 # rest \<Rightarrow>
          (case those (map job_entry jobs) of
             None \<Rightarrow> Inl (TypeError ''Cannot read properties of undefined (reading path)'')
           | Some entries \<Rightarrow>
               let md = fetchRepoMetadata env (get_owner j0) (get_repo j0)
               in Inr (object_fromEntries
                         (entries @ [(''metadata'', Some (template_literal md))]))))"

definition checkGroupCompletion :: "string \<Rightarrow> kvstore \<Rightarrow> bool" where
  "checkGroupCompletion g s =
     list_all (\<lambda>v. get_status v = Some Completed) (getJobs (group_prefix g) s)"

text \<open>
  \<^verbatim>\<open>finalizeGroup\<close>, with the state it leaves when a step throws. Destructuring
  \<^verbatim>\<open>jobs[0]\<close> throws when the list is empty. Writing the local file is taken to
  succeed; the upload may throw.
\<close>

definition finalizeGroup :: "env \<Rightarrow> string \<Rightarrow> world \<Rightarrow> (error + unit) \<times> world" where
  "finalizeGroup env g w =
     (case getJobs (group_prefix g) (kv w) of
        [] \<Rightarrow> (Inl (TypeError ''Cannot destructure property owner of undefined''), w)
      | j0 # rest \<Rightarrow>
          (case getASTFilename (get_owner j0) (get_repo j0) of
             Inl e \<Rightarrow> (Inl e, w)
           | Inr filename \<Rightarrow>
               (case assembleDocument env (j0 # rest) of
                  Inl e \<Rightarrow> (Inl e, w)
                | Inr finalDocument \<Rightarrow>
                    let w1 = w\<lparr>written := written w @ [(filename, finalDocument)]\<rparr> in
                    (case uploadAndPoll env filename of
                       Inl e \<Rightarrow> (Inl e, w1)
                     | Inr u \<Rightarrow>
                         (Inr (),
                          w1\<lparr>uploaded := uploaded w1 @ [filename],
                             kv := kv_set (group_prefix g @ ''status'') (VStr ''completed'')
                                     (kv w1)\<rparr>)))))"

text \<open>
  \<^verbatim>\<open>processJob\<close>: the \<^verbatim>\<open>try\<close> block step by step; a step that throws hands the job
  as mutated so far, and the state as written so far, to \<^verbatim>\<open>handleJobFailure\<close>.
\<close>

definition processJob :: "env \<Rightarrow> job \<Rightarrow> world \<Rightarrow> world" where
  "processJob env j w =
     (let (j1, s1) = saveJobWithStatus env j InProgress (kv w);
          w1 = w\<lparr>kv := s1\<rparr>
      in case processFile env (job_file j1) of
           Inl e \<Rightarrow> handleJobFailure env j1 w1
         | Inr r \<Rightarrow>
             let (j2, s2) = saveJobWithStatus env (j1\<lparr>result := Some r\<rparr>) Completed s1;
                 s3 = kv_set (marker_key (groupId j2) (job_id j2)) (VStr ''completed'') s2;
                 w3 = w1\<lparr>kv := s3\<rparr>
             in if checkGroupCompletion (groupId j2) s3
                then (case finalizeGroup env (groupId j2) w3 of
                        (Inl e, w4) \<Rightarrow> handleJobFailure env j2 w4
                      | (Inr u, w4) \<Rightarrow> w4)
                else w3)"

section \<open>The scheduling pass (\<^verbatim>\<open>GET\<close>)\<close>

text \<open>
  \<^verbatim>\<open>processJobs\<close>: the first \<open>limit\<close> jobs of the list. \<^verbatim>\<open>Promise.all\<close> starts them in
  list order; the model runs them one after the other in that order (each job writes its
  own two keys only, and the group check is false whenever a marker exists).
\<close>

definition jobsToProcess :: "job list \<Rightarrow> nat \<Rightarrow> job list" where
  "jobsToProcess jobs limit = take (min (length jobs) limit) jobs"

definition processJobs :: "env \<Rightarrow> job list \<Rightarrow> nat \<Rightarrow> world \<Rightarrow> world" where
  "processJobs env jobs limit w = foldl (\<lambda>w' j. processJob env j w') w (jobsToProcess jobs limit)"

text \<open>The values of a listing that passed a filter on \<^verbatim>\<open>status\<close> are job objects.\<close>

definition as_jobs :: "kvalue list \<Rightarrow> job list" where
  "as_jobs vs = concat (map (\<lambda>v. case v of VJob j \<Rightarrow> [j] | _ \<Rightarrow> []) vs)"

text \<open>
  \<^verbatim>\<open>GET\<close>: the authorization header and \<^verbatim>\<open>CRON_SECRET\<close> (each may be absent), and the
  status of the response. The store's own operations do not fail here, so no step of the
  \<^verbatim>\<open>try\<close> block throws and the \<^verbatim>\<open>catch\<close> branch (status 500) has no counterpart.
\<close>

definition GET :: "env \<Rightarrow> string option \<Rightarrow> string option \<Rightarrow> world \<Rightarrow> nat \<times> world" where
  "GET env authorization cron_secret w =
     (if authorization
           \<noteq> Some (''Bearer '' @ (case cron_secret of None \<Rightarrow> ''undefined'' | Some c \<Rightarrow> c))
      then (401, w)
      else
        let jobs = getJobs ''job:'' (kv w);
            inProgressJobs = filter (\<lambda>job. get_status job = Some InProgress) jobs;
            staleInProgressJobs = filterForStaleJobs (Date_now env) inProgressJobs (60000 * 6)
        in if length staleInProgressJobs > 0
           then (200, processJobs env (as_jobs staleInProgressJobs) 50 w)
           else
             let queuedJobs = filter (\<lambda>job. get_status job = Some Queued) jobs
             in if length queuedJobs > 0
                then (200, processJobs env (as_jobs queuedJobs) 50 w)
                else (200, w))"

section \<open>The Enqueuer (\<^verbatim>\<open>queueGroupedJobs\<close>)\<close>

text \<open>
  The provider's directory listing: files, directories with their own listing,
  directories whose listing request fails, and entries of any other type.
\<close>

datatype item = FileItem string string | DirItem string "item list" | FailingDir string | OtherItem

text \<open>
  \<^verbatim>\<open>fetchFiles\<close> on a listing that was fetched: files in listing order, each
  directory's files in its place; a failing listing of a subdirectory throws.
\<close>

fun fetchFiles :: "item list \<Rightarrow> error + fileinfo list" where
  "fetchFiles [] = Inr []"
| "fetchFiles (FileItem p u # items) =
     (case fetchFiles items of
        Inl e \<Rightarrow> Inl e
      | Inr files \<Rightarrow> Inr (\<lparr>path = p, download_url = u\<rparr> # files))"
| "fetchFiles (DirItem p sub # items) =
     (case fetchFiles sub of
        Inl e \<Rightarrow> Inl e
      | Inr moreFiles \<Rightarrow>
          (case fetchFiles items of
             Inl e \<Rightarrow> Inl e
           | Inr files \<Rightarrow> Inr (moreFiles @ files)))"
| "fetchFiles (FailingDir p # items) = Inl (Error ''Failed to fetch files'')"
| "fetchFiles (OtherItem # items) = fetchFiles items"

text \<open>
  What one call of the Enqueuer takes from outside: the clock, the identifiers
  \<^verbatim>\<open>uuidv4()\<close> returns (the \<open>n\<close>-th call's), the repository's listing (\<open>None\<close> when the
  request for the root fails) and the provider's commit list for a path, latest first
  (\<open>Inl\<close> when the request rejects; the empty list also stands for an answer that has
  no element 0).
\<close>

record qenv =
  q_now :: int
  uuidv4 :: "nat \<Rightarrow> string"
  contents :: "item list option"
  fetchGitHubCommits :: "string \<Rightarrow> string \<Rightarrow> error + commit list"

definition queueJob :: "job \<Rightarrow> kvstore \<Rightarrow> kvstore" where
  "queueJob j s =
     kv_set (marker_key (groupId j) (job_id j)) (VStr ''queued'')
       (kv_set (job_key (job_id j)) (VJob j) s)"

definition storeFileMetadata :: "string \<Rightarrow> string \<Rightarrow> commit \<Rightarrow> kvstore \<Rightarrow> kvstore" where
  "storeFileMetadata rp f md s = kv_set (metadata_key rp f) (VCommit md) s"

definition getFileMetadata :: "string \<Rightarrow> string \<Rightarrow> kvstore \<Rightarrow> kvalue" where
  "getFileMetadata rp f s = (case kv_get (metadata_key rp f) s of None \<Rightarrow> VEmpty | Some v \<Rightarrow> v)"

text \<open>
  The test \<^verbatim>\<open>!storedMetadata || storedMetadata.sha !== latestMetadata[0].sha\<close>;
  reading \<^verbatim>\<open>sha\<close> of an absent first commit throws.
\<close>

definition needs_job :: "kvalue \<Rightarrow> commit list \<Rightarrow> error + bool" where
  "needs_job storedMetadata latestMetadata =
     (if \<not> truthy storedMetadata then Inr True
      else case latestMetadata of
             [] \<Rightarrow> Inl (TypeError ''Cannot read properties of undefined (reading sha)'')
           | c # cs \<Rightarrow> Inr (get_sha storedMetadata \<noteq> Some (sha c)))"

text \<open>
  The loop \<^verbatim>\<open>for (const file of files)\<close>: \<open>n\<close> counts the identifiers generated so
  far, \<open>jobs\<close> is the array of the jobs created. A step that throws leaves the store as
  written so far.
\<close>

fun queue_files ::
  "qenv \<Rightarrow> string \<Rightarrow> string \<Rightarrow> string \<Rightarrow> fileinfo list \<Rightarrow> nat \<Rightarrow> job list \<Rightarrow> kvstore
     \<Rightarrow> (error + job list) \<times> kvstore" where
  "queue_files q ow rp g [] n jobs s = (Inr jobs, s)"
| "queue_files q ow rp g (f # files) n jobs s =
     (let repoKey = ow @ ''/'' @ rp in
      case fetchGitHubCommits q repoKey (path f) of
        Inl e \<Rightarrow> (Inl e, s)
      | Inr latestMetadata \<Rightarrow>
          (case needs_job (getFileMetadata repoKey (path f) s) latestMetadata of
             Inl e \<Rightarrow> (Inl e, s)
           | Inr False \<Rightarrow> queue_files q ow rp g files n jobs s
           | Inr True \<Rightarrow>
               let j = \<lparr>job_id = uuidv4 q n, job_file = f, groupId = g, status = Queued,
                        owner = ow, repo = rp, createdAt = q_now q, updatedAt = q_now q,
                        result = None\<rparr>;
                   s1 = queueJob j s
               in (case latestMetadata of
                     [] \<Rightarrow> queue_files q ow rp g files (Suc n) (jobs @ [j])
                             (kv_set (metadata_key repoKey (path f)) VEmpty s1)
                   | c # cs \<Rightarrow> queue_files q ow rp g files (Suc n) (jobs @ [j])
                                (storeFileMetadata repoKey (path f) c s1))))"

text \<open>
  \<^verbatim>\<open>queueGroupedJobs\<close>: the group id and the jobs created, or the error thrown, and the
  store it leaves.
\<close>

definition queueGroupedJobs ::
  "qenv \<Rightarrow> string \<Rightarrow> string \<Rightarrow> kvstore \<Rightarrow> (error + string \<times> job list) \<times> kvstore" where
  "queueGroupedJobs q ow rp s =
     (case contents q of
        None \<Rightarrow> (Inl (Error ''Failed to fetch files''), s)
      | Some items \<Rightarrow>
          (case fetchFiles items of
             Inl e \<Rightarrow> (Inl e, s)
           | Inr allFiles \<Rightarrow>
               let files = filter (\<lambda>fileInfo. getFileType (path fileInfo) \<noteq> ''Media'') allFiles;
                   groupId = uuidv4 q 0
               in (case queue_files q ow rp groupId files 1 [] s of
                     (Inl e, s') \<Rightarrow> (Inl e, s')
                   | (Inr jobs, s') \<Rightarrow> (Inr (groupId, jobs), s'))))"

section \<open>Notions used to state the properties\<close>

text \<open>
  The batch one authorized pass hands to \<^verbatim>\<open>processJobs\<close>: the stale in-progress jobs
  when there are any, the queued jobs otherwise.
\<close>

definition staleInProgress :: "env \<Rightarrow> kvstore \<Rightarrow> kvalue list" where
  "staleInProgress env s =
     filterForStaleJobs (Date_now env)
       (filter (\<lambda>job. get_status job = Some InProgress) (getJobs ''job:'' s)) (60000 * 6)"

definition queued :: "kvstore \<Rightarrow> kvalue list" where
  "queued s = filter (\<lambda>job. get_status job = Some Queued) (getJobs ''job:'' s)"

definition eligibleJobs :: "env \<Rightarrow> kvstore \<Rightarrow> job list" where
  "eligibleJobs env s =
     (if staleInProgress env s \<noteq> [] then as_jobs (staleInProgress env s)
      else as_jobs (queued s))"

text \<open>
  A store as the Enqueuer and the worker write it: one value per key; under a key
  \<^verbatim>\<open>job:...\<close> a job object, stored under its own id, whose group id has no colon (it
  is a UUID) and whose membership marker exists; under a key \<^verbatim>\<open>group:...\<close> a string.
  The empty store is such a store, the Enqueuer and a scheduling pass keep it one
  (\<open>wf_store_queueGroupedJobs\<close>, \<open>pass_wf\<close>).
\<close>

definition wf_entry :: "string list \<Rightarrow> string \<times> kvalue \<Rightarrow> bool" where
  "wf_entry keys e =
     ((prefix ''job:'' (fst e) \<longrightarrow>
         (case snd e of
            VJob j \<Rightarrow> fst e = job_key (job_id j) \<and> CHR '':'' \<notin> set (groupId j)
                      \<and> marker_key (groupId j) (job_id j) \<in> set keys
          | _ \<Rightarrow> False))
      \<and> (prefix ''group:'' (fst e) \<longrightarrow> (case snd e of VStr m \<Rightarrow> True | _ \<Rightarrow> False)))"

definition wf_store :: "kvstore \<Rightarrow> bool" where
  "wf_store s = (distinct (map fst s) \<and> list_all (wf_entry (map fst s)) s)"

text \<open>The job objects under the keys \<^verbatim>\<open>job:*\<close>, in scan order.\<close>

definition listed :: "kvstore \<Rightarrow> job list" where
  "listed s = as_jobs (map (\<lambda>key. case kv_get key s of None \<Rightarrow> VEmpty | Some v \<Rightarrow> v)
                         (scanIterator ''job:'' s))"

section \<open>Concrete inputs\<close>

text \<open>A target that fails twice and then answers, and one that always answers 404.\<close>

definition flaky_net :: fetch where
  "flaky_net url n =
     (if n < 3 then Inl (Error ''ECONNRESET'')
      else Inr \<lparr>ok = True, statusText = ''OK'', body = Inr ''content''\<rparr>)"

definition dead_net :: fetch where
  "dead_net url n = Inr \<lparr>ok = False, statusText = ''Not Found'', body = Inr []\<rparr>"

text \<open>
  A target that always answers, a disk on which every write succeeds, one that is full
  (every write throws and leaves the file empty), and one whose first two writes fail.
\<close>

definition good_net :: fetch where
  "good_net url n = Inr \<lparr>ok = True, statusText = ''OK'', body = Inr ''content''\<rparr>"

definition good_disk :: disk where
  "good_disk filePath n = None"

definition full_disk :: disk where
  "full_disk filePath n = Some (Error ''ENOSPC'', Some [])"

definition flaky_disk :: disk where
  "flaky_disk filePath n = (if n < 3 then Some (Error ''EIO'', None) else None)"

text \<open>
  A worker whose every collaborator is unreachable or silent: the network always answers
  404, so every file fetch is exhausted.
\<close>

definition env_dead :: env where
  "env_dead =
     \<lparr>Date_now = 2000, fetch_net = dead_net, generateAST = (\<lambda>f c. []),
      summarizeFileOpenAI = (\<lambda>f c. Inr None), JSON_stringify = (\<lambda>c. c),
      fetchRepoMetadata = (\<lambda>ow rp. None), uploadAndPoll = (\<lambda>f. Inr ())\<rparr>"

text \<open>A group of one job, as the Enqueuer leaves it.\<close>

definition job1 :: job where
  "job1 =
     \<lparr>job_id = ''j1'', job_file = \<lparr>path = ''a.js'', download_url = ''https://raw.example/a.js''\<rparr>,
      groupId = ''g1'', status = Queued, owner = ''acme'', repo = ''site'',
      createdAt = 1000, updatedAt = 1000, result = None\<rparr>"

definition world1 :: world where
  "world1 = \<lparr>kv = queueJob job1 [], written = [], uploaded = []\<rparr>"

text \<open>
  A store with a job left in progress at time 1000 and a queued job, and a worker
  whose clock reads seven minutes later.
\<close>

definition job0 :: job where
  "job0 = job1\<lparr>job_id := ''j0'', status := InProgress\<rparr>"

definition world2 :: world where
  "world2 =
     \<lparr>kv = [(''job:j0'', VJob job0), (''group:g1:j0'', VStr ''queued''),
             (''job:j1'', VJob job1), (''group:g1:j1'', VStr ''queued'')],
      written = [], uploaded = []\<rparr>"

definition env_late :: env where
  "env_late = env_dead\<lparr>Date_now := 1000 + 7 * 60000\<rparr>"

text \<open>The store that holds the given jobs and a marker for each, written job by job.\<close>

definition enqueued :: "job list \<Rightarrow> kvstore" where
  "enqueued js =
     concat (map (\<lambda>j. [(job_key (job_id j), VJob j),
                        (marker_key (groupId j) (job_id j), VStr ''queued'')]) js)"

text \<open>A store with 51 queued jobs of one group, the later-listed ones the older.\<close>

definition many_job :: "nat \<Rightarrow> job" where
  "many_job n = job1\<lparr>job_id := replicate (Suc n) (CHR ''x''), updatedAt := 200 - int n\<rparr>"

definition world51 :: world where
  "world51 = \<lparr>kv = enqueued (map many_job [0..<51]), written = [], uploaded = []\<rparr>"

text \<open>
  A repository with the files \<^verbatim>\<open>a.js\<close>, \<^verbatim>\<open>b.png\<close> and \<^verbatim>\<open>dir/c.json\<close>, each with one
  commit, and two calls of the Enqueuer on it: the identifiers and the clock differ, the
  listing and the commits do not.
\<close>

definition repo_items :: "item list" where
  "repo_items =
     [FileItem ''a.js'' ''https://raw.example/a.js'',
      FileItem ''b.png'' ''https://raw.example/b.png'',
      DirItem ''dir'' [FileItem ''dir/c.json'' ''https://raw.example/dir/c.json'']]"

definition first_call :: qenv where
  "first_call =
     \<lparr>q_now = 1000,
      uuidv4 = (\<lambda>n. ''id-'' @ replicate n (CHR ''a'')),
      contents = Some repo_items,
      fetchGitHubCommits = (\<lambda>rk p. Inr [\<lparr>sha = ''sha-of-'' @ p\<rparr>])\<rparr>"

definition second_call :: qenv where
  "second_call = first_call\<lparr>q_now := 5000, uuidv4 := (\<lambda>n. ''id-'' @ replicate n (CHR ''b''))\<rparr>"

section \<open>Properties of the retry loops\<close>

lemma backoff_trace_step:
  "a < m \<Longrightarrow> [Request url, Sleep (1000 * 2 ^ a)] @ backoff_trace url (Suc a) m
     = backoff_trace url a m"
  by (simp add: backoff_trace_def upt_conv_Cons)

lemma backoff_trace_refl: "backoff_trace url m m = [Request url]"
  by (simp add: backoff_trace_def)

lemma requests_append: "requests (xs @ ys) = requests xs + requests ys"
  by (simp add: requests_def)

lemma requests_backoff_trace: "a \<le> m \<Longrightarrow> requests (backoff_trace url a m) = Suc (m - a)"
proof (induction "m - a" arbitrary: a)
  case 0
  then show ?case by (simp add: backoff_trace_refl requests_def)
next
  case (Suc d)
  then have lt: "a < m" by simp
  have "requests (backoff_trace url a m)
      = requests ([Request url, Sleep (1000 * 2 ^ a)] @ backoff_trace url (Suc a) m)"
    by (simp only: backoff_trace_step [OF lt])
  also have "\<dots> = Suc (requests (backoff_trace url (Suc a) m))"
    by (simp add: requests_def)
  also have "\<dots> = Suc (Suc (m - Suc a))"
    using Suc.hyps(1) [of "Suc a"] Suc.hyps(2) lt by simp
  finally show ?case using lt by simp
qed

lemma fetchFile_loop_succeeds:
  "\<lbrakk>a \<le> m; m \<le> 5; \<forall>k. a \<le> k \<and> k < m \<longrightarrow> isl (fetchFile_try net url k);
    fetchFile_try net url m = Inr d\<rbrakk>
   \<Longrightarrow> fetchFile_loop net url a tr = (Inr d, tr @ backoff_trace url a m)"
proof (induction "m - a" arbitrary: a tr)
  case 0
  then have "a = m" by simp
  with 0 show ?case
    by (simp add: fetchFile_loop.simps [of net url m] backoff_trace_refl)
next
  case (Suc n)
  then have lt: "a < m" by simp
  with Suc.prems obtain e where e: "fetchFile_try net url a = Inl e"
    by (cases "fetchFile_try net url a") auto
  have "fetchFile_loop net url a tr
      = fetchFile_loop net url (Suc a) (tr @ [Request url, Sleep (1000 * 2 ^ a)])"
    using lt Suc.prems(2) e by (simp add: fetchFile_loop.simps [of net url a])
  also have "\<dots> = (Inr d, (tr @ [Request url, Sleep (1000 * 2 ^ a)]) @ backoff_trace url (Suc a) m)"
    using Suc.hyps(2) lt Suc.prems by (intro Suc.hyps(1)) auto
  also have "\<dots> = (Inr d, tr @ backoff_trace url a m)"
    using backoff_trace_step [OF lt, of url] by simp
  finally show ?case .
qed

lemma fetchFile_loop_exhausts:
  "\<lbrakk>1 \<le> a; a \<le> 5; \<forall>k. a \<le> k \<and> k \<le> 5 \<longrightarrow> isl (fetchFile_try net url k)\<rbrakk>
   \<Longrightarrow> fetchFile_loop net url a tr
       = (Inl (Error (''Failed to fetch file after 5 attempts: '' @ url)),
          tr @ backoff_trace url a 5)"
proof (induction "5 - a" arbitrary: a tr)
  case 0
  then have a: "a = 5" by simp
  with 0 obtain e where "fetchFile_try net url 5 = Inl e"
    by (cases "fetchFile_try net url 5") auto
  with a show ?case
    by (simp add: fetchFile_loop.simps [of net url 5] backoff_trace_refl)
next
  case (Suc n)
  then have lt: "a < 5" by simp
  with Suc.prems obtain e where e: "fetchFile_try net url a = Inl e"
    by (cases "fetchFile_try net url a") auto
  have "fetchFile_loop net url a tr
      = fetchFile_loop net url (Suc a) (tr @ [Request url, Sleep (1000 * 2 ^ a)])"
    using lt e by (simp add: fetchFile_loop.simps [of net url a])
  also have "\<dots> = (Inl (Error (''Failed to fetch file after 5 attempts: '' @ url)),
                  (tr @ [Request url, Sleep (1000 * 2 ^ a)]) @ backoff_trace url (Suc a) 5)"
    using Suc.hyps(2) lt Suc.prems by (intro Suc.hyps(1)) auto
  also have "\<dots> = (Inl (Error (''Failed to fetch file after 5 attempts: '' @ url)),
                  tr @ backoff_trace url a 5)"
    using backoff_trace_step [OF lt, of url] by simp
  finally show ?case .
qed

lemma left_behind_other: "p' \<noteq> p \<Longrightarrow> left_behind p left fs p' = fs p'"
  by (cases left) (simp_all add: left_behind_def)

lemma downloadFile_loop_succeeds:
  "\<lbrakk>a \<le> m; m \<le> 5; \<forall>k. a \<le> k \<and> k < m \<longrightarrow> isl (downloadFile_try net wr url p k);
    downloadFile_try net wr url p m = Inr d\<rbrakk>
   \<Longrightarrow> \<exists>fs'. downloadFile_loop net wr url p a fs tr
               = (Inr (), fs'(p \<mapsto> d), tr @ backoff_trace url a m)
            \<and> (\<forall>p'. p' \<noteq> p \<longrightarrow> fs' p' = fs p')"
proof (induction "m - a" arbitrary: a tr fs)
  case 0
  then have "a = m" by simp
  with 0 have "downloadFile_loop net wr url p a fs tr
                 = (Inr (), fs(p \<mapsto> d), tr @ backoff_trace url a m)"
    by (simp add: downloadFile_loop.simps [of net wr url p m] backoff_trace_refl fun_upd_def)
  then show ?case by blast
next
  case (Suc n)
  then have lt: "a < m" by simp
  with Suc.prems obtain f where f: "downloadFile_try net wr url p a = Inl f"
    by (cases "downloadFile_try net wr url p a") auto
  let ?fs = "left_behind p (snd f) fs"
  have step: "downloadFile_loop net wr url p a fs tr
      = downloadFile_loop net wr url p (Suc a) ?fs (tr @ [Request url, Sleep (1000 * 2 ^ a)])"
    using lt Suc.prems(2) f by (simp add: downloadFile_loop.simps [of net wr url p a])
  have "\<exists>fs'. downloadFile_loop net wr url p (Suc a) ?fs
                  (tr @ [Request url, Sleep (1000 * 2 ^ a)])
               = (Inr (), fs'(p \<mapsto> d),
                  (tr @ [Request url, Sleep (1000 * 2 ^ a)]) @ backoff_trace url (Suc a) m)
            \<and> (\<forall>p'. p' \<noteq> p \<longrightarrow> fs' p' = ?fs p')"
    using Suc.hyps(2) lt Suc.prems by (intro Suc.hyps(1)) auto
  then obtain fs' where
    r: "downloadFile_loop net wr url p (Suc a) ?fs (tr @ [Request url, Sleep (1000 * 2 ^ a)])
          = (Inr (), fs'(p \<mapsto> d),
             (tr @ [Request url, Sleep (1000 * 2 ^ a)]) @ backoff_trace url (Suc a) m)"
    and fr: "\<forall>p'. p' \<noteq> p \<longrightarrow> fs' p' = ?fs p'"
    by blast
  have "downloadFile_loop net wr url p a fs tr
          = (Inr (), fs'(p \<mapsto> d), tr @ backoff_trace url a m)"
    using step r backoff_trace_step [OF lt, of url] by simp
  moreover have "\<forall>p'. p' \<noteq> p \<longrightarrow> fs' p' = fs p'"
    using fr by (simp add: left_behind_other)
  ultimately show ?case by blast
qed

lemma downloadFile_loop_exhausts:
  "\<lbrakk>1 \<le> a; a \<le> 5; \<forall>k. a \<le> k \<and> k \<le> 5 \<longrightarrow> isl (downloadFile_try net wr url p k)\<rbrakk>
   \<Longrightarrow> \<exists>fs'. downloadFile_loop net wr url p a fs tr
               = (Inl (Error (''Failed to download file after 5 attempts: '' @ url)), fs',
                  tr @ backoff_trace url a 5)
            \<and> (\<forall>p'. p' \<noteq> p \<longrightarrow> fs' p' = fs p')"
proof (induction "5 - a" arbitrary: a tr fs)
  case 0
  then have a: "a = 5" by simp
  with 0 obtain f where "downloadFile_try net wr url p 5 = Inl f"
    by (cases "downloadFile_try net wr url p 5") auto
  with a have "downloadFile_loop net wr url p a fs tr
      = (Inl (Error (''Failed to download file after 5 attempts: '' @ url)),
         left_behind p (snd f) fs, tr @ backoff_trace url a 5)"
    by (simp add: downloadFile_loop.simps [of net wr url p 5] backoff_trace_refl)
  then show ?case by (auto simp: left_behind_other)
next
  case (Suc n)
  then have lt: "a < 5" by simp
  with Suc.prems obtain f where f: "downloadFile_try net wr url p a = Inl f"
    by (cases "downloadFile_try net wr url p a") auto
  let ?fs = "left_behind p (snd f) fs"
  have step: "downloadFile_loop net wr url p a fs tr
      = downloadFile_loop net wr url p (Suc a) ?fs (tr @ [Request url, Sleep (1000 * 2 ^ a)])"
    using lt f by (simp add: downloadFile_loop.simps [of net wr url p a])
  have "\<exists>fs'. downloadFile_loop net wr url p (Suc a) ?fs
                  (tr @ [Request url, Sleep (1000 * 2 ^ a)])
               = (Inl (Error (''Failed to download file after 5 attempts: '' @ url)), fs',
                  (tr @ [Request url, Sleep (1000 * 2 ^ a)]) @ backoff_trace url (Suc a) 5)
            \<and> (\<forall>p'. p' \<noteq> p \<longrightarrow> fs' p' = ?fs p')"
    using Suc.hyps(2) lt Suc.prems by (intro Suc.hyps(1)) auto
  then obtain fs' where
    r: "downloadFile_loop net wr url p (Suc a) ?fs (tr @ [Request url, Sleep (1000 * 2 ^ a)])
          = (Inl (Error (''Failed to download file after 5 attempts: '' @ url)), fs',
             (tr @ [Request url, Sleep (1000 * 2 ^ a)]) @ backoff_trace url (Suc a) 5)"
    and fr: "\<forall>p'. p' \<noteq> p \<longrightarrow> fs' p' = ?fs p'"
    by blast
  have "downloadFile_loop net wr url p a fs tr
          = (Inl (Error (''Failed to download file after 5 attempts: '' @ url)), fs',
             tr @ backoff_trace url a 5)"
    using step r backoff_trace_step [OF lt, of url] by simp
  moreover have "\<forall>p'. p' \<noteq> p \<longrightarrow> fs' p' = fs p'"
    using fr by (simp add: left_behind_other)
  ultimately show ?case by blast
qed

lemma fetchFile_loop_requests:
  "a \<le> 6 \<Longrightarrow> requests (snd (fetchFile_loop net url a tr)) + a \<le> requests tr + 6"
proof (induction net url a tr rule: fetchFile_loop.induct)
  case (1 net url attempt tr)
  show ?case
  proof (cases "attempt \<le> 5")
    case False
    with "1.prems" show ?thesis by (simp add: fetchFile_loop.simps [of net url attempt])
  next
    case le: True
    show ?thesis
    proof (cases "fetchFile_try net url attempt")
      case (Inr d)
      with le show ?thesis
        by (simp add: fetchFile_loop.simps [of net url attempt] requests_def)
    next
      case (Inl e)
      show ?thesis
      proof (cases "attempt = 5")
        case True
        with Inl show ?thesis
          by (simp add: fetchFile_loop.simps [of net url 5] requests_def)
      next
        case False
        have "requests (snd (fetchFile_loop net url (attempt + 1)
                 (tr @ [Request url, Sleep (1000 * 2 ^ attempt)]))) + (attempt + 1)
              \<le> requests (tr @ [Request url, Sleep (1000 * 2 ^ attempt)]) + 6"
          using "1.IH" [OF le Inl False] le by simp
        with le Inl False show ?thesis
          by (simp add: fetchFile_loop.simps [of net url attempt] requests_def)
      qed
    qed
  qed
qed

lemma downloadFile_loop_requests:
  "a \<le> 6 \<Longrightarrow>
   requests (snd (snd (downloadFile_loop net wr url p a fs tr))) + a \<le> requests tr + 6"
proof (induction net wr url p a fs tr rule: downloadFile_loop.induct)
  case (1 net wr url filePath attempt fs tr)
  show ?case
  proof (cases "attempt \<le> 5")
    case False
    with "1.prems" show ?thesis
      by (simp add: downloadFile_loop.simps [of net wr url filePath attempt])
  next
    case le: True
    show ?thesis
    proof (cases "downloadFile_try net wr url filePath attempt")
      case (Inr d)
      with le show ?thesis
        by (simp add: downloadFile_loop.simps [of net wr url filePath attempt] requests_def)
    next
      case (Inl f)
      show ?thesis
      proof (cases "attempt = 5")
        case True
        with Inl show ?thesis
          by (simp add: downloadFile_loop.simps [of net wr url filePath 5] requests_def)
      next
        case False
        have "requests (snd (snd (downloadFile_loop net wr url filePath (attempt + 1)
                 (left_behind filePath (snd f) fs)
                 (tr @ [Request url, Sleep (1000 * 2 ^ attempt)])))) + (attempt + 1)
              \<le> requests (tr @ [Request url, Sleep (1000 * 2 ^ attempt)]) + 6"
          using "1.IH" [OF le Inl False] le by simp
        with le Inl False show ?thesis
          by (simp add: downloadFile_loop.simps [of net wr url filePath attempt] requests_def)
      qed
    qed
  qed
qed

text \<open>
  C3. Both flavours of the retry loop send at most 5 requests. When the first \<open>n < 5\<close>
  attempts fail and attempt \<open>n + 1\<close> succeeds, the text flavour returns that attempt's
  content, and the byte flavour returns with the destination holding it and every other
  file as it was, after \<open>n + 1\<close> requests separated by waits of \<open>1000 * 2 ^ k\<close> ms after
  each failed attempt \<open>k\<close> (attempts counted from 1). An attempt of the byte flavour
  fails also when the write to the destination throws. When all 5 attempts fail, the call
  throws an error whose message ends with the target, after exactly 5 requests and the four
  waits between them; it does not return a value.
\<close>

theorem retry_fetch_bounded_backoff:
  "requests (snd (fetchFile net url)) \<le> 5
   \<and> requests (snd (snd (downloadFile net wr url p fs))) \<le> 5
   \<and> (\<forall>n d. n < 5 \<and> (\<forall>k. 1 \<le> k \<and> k \<le> n \<longrightarrow> isl (fetchFile_try net url k))
               \<and> fetchFile_try net url (Suc n) = Inr d
        \<longrightarrow> fetchFile net url = (Inr d, Sleep 750 # backoff_trace url 1 (Suc n))
            \<and> requests (backoff_trace url 1 (Suc n)) = Suc n)
   \<and> (\<forall>n d. n < 5 \<and> (\<forall>k. 1 \<le> k \<and> k \<le> n \<longrightarrow> isl (downloadFile_try net wr url p k))
               \<and> downloadFile_try net wr url p (Suc n) = Inr d
        \<longrightarrow> fst (downloadFile net wr url p fs) = Inr ()
            \<and> snd (snd (downloadFile net wr url p fs)) = backoff_trace url 1 (Suc n)
            \<and> fst (snd (downloadFile net wr url p fs)) p = Some d
            \<and> (\<forall>p'. p' \<noteq> p \<longrightarrow> fst (snd (downloadFile net wr url p fs)) p' = fs p'))
   \<and> ((\<forall>k. 1 \<le> k \<and> k \<le> 5 \<longrightarrow> isl (fetchFile_try net url k))
        \<longrightarrow> fetchFile net url
              = (Inl (Error (''Failed to fetch file after 5 attempts: '' @ url)),
                 Sleep 750 # backoff_trace url 1 5)
            \<and> requests (backoff_trace url 1 5) = 5)
   \<and> ((\<forall>k. 1 \<le> k \<and> k \<le> 5 \<longrightarrow> isl (downloadFile_try net wr url p k))
        \<longrightarrow> fst (downloadFile net wr url p fs)
              = Inl (Error (''Failed to download file after 5 attempts: '' @ url))
            \<and> snd (snd (downloadFile net wr url p fs)) = backoff_trace url 1 5
            \<and> (\<forall>p'. p' \<noteq> p \<longrightarrow> fst (snd (downloadFile net wr url p fs)) p' = fs p'))"
proof (intro conjI allI impI)
  show "requests (snd (fetchFile net url)) \<le> 5"
    using fetchFile_loop_requests [of 1 net url "[Sleep 750]"]
    by (simp add: fetchFile_def requests_def)
next
  show "requests (snd (snd (downloadFile net wr url p fs))) \<le> 5"
    using downloadFile_loop_requests [of 1 net wr url p fs "[]"]
    by (simp add: downloadFile_def requests_def)
next
  fix n d
  assume h: "n < 5 \<and> (\<forall>k. 1 \<le> k \<and> k \<le> n \<longrightarrow> isl (fetchFile_try net url k))
               \<and> fetchFile_try net url (Suc n) = Inr d"
  then have "fetchFile_loop net url 1 [Sleep 750]
               = (Inr d, [Sleep 750] @ backoff_trace url 1 (Suc n))"
    by (intro fetchFile_loop_succeeds) auto
  then show "fetchFile net url = (Inr d, Sleep 750 # backoff_trace url 1 (Suc n))"
    by (simp add: fetchFile_def)
  show "requests (backoff_trace url 1 (Suc n)) = Suc n"
    by (simp add: requests_backoff_trace)
next
  fix n d
  assume h: "n < 5 \<and> (\<forall>k. 1 \<le> k \<and> k \<le> n \<longrightarrow> isl (downloadFile_try net wr url p k))
               \<and> downloadFile_try net wr url p (Suc n) = Inr d"
  then have "\<exists>fs'. downloadFile_loop net wr url p 1 fs []
               = (Inr (), fs'(p \<mapsto> d), [] @ backoff_trace url 1 (Suc n))
             \<and> (\<forall>p'. p' \<noteq> p \<longrightarrow> fs' p' = fs p')"
    by (intro downloadFile_loop_succeeds) auto
  then obtain fs' where
    r: "downloadFile net wr url p fs = (Inr (), fs'(p \<mapsto> d), backoff_trace url 1 (Suc n))"
    and fr: "\<forall>p'. p' \<noteq> p \<longrightarrow> fs' p' = fs p'"
    by (auto simp: downloadFile_def)
  from r show "fst (downloadFile net wr url p fs) = Inr ()"
    and "snd (snd (downloadFile net wr url p fs)) = backoff_trace url 1 (Suc n)"
    and "fst (snd (downloadFile net wr url p fs)) p = Some d"
    by simp_all
  fix p' assume "p' \<noteq> p"
  with r fr show "fst (snd (downloadFile net wr url p fs)) p' = fs p'" by simp
next
  assume h: "\<forall>k. 1 \<le> k \<and> k \<le> 5 \<longrightarrow> isl (fetchFile_try net url k)"
  then have "fetchFile_loop net url 1 [Sleep 750]
               = (Inl (Error (''Failed to fetch file after 5 attempts: '' @ url)),
                  [Sleep 750] @ backoff_trace url 1 5)"
    by (intro fetchFile_loop_exhausts) auto
  then show "fetchFile net url
               = (Inl (Error (''Failed to fetch file after 5 attempts: '' @ url)),
                  Sleep 750 # backoff_trace url 1 5)"
    by (simp add: fetchFile_def)
  show "requests (backoff_trace url 1 5) = 5"
    by (simp add: requests_backoff_trace)
next
  assume h: "\<forall>k. 1 \<le> k \<and> k \<le> 5 \<longrightarrow> isl (downloadFile_try net wr url p k)"
  then have "\<exists>fs'. downloadFile_loop net wr url p 1 fs []
               = (Inl (Error (''Failed to download file after 5 attempts: '' @ url)), fs',
                  [] @ backoff_trace url 1 5)
             \<and> (\<forall>p'. p' \<noteq> p \<longrightarrow> fs' p' = fs p')"
    by (intro downloadFile_loop_exhausts) auto
  then obtain fs' where
    r: "downloadFile net wr url p fs
          = (Inl (Error (''Failed to download file after 5 attempts: '' @ url)), fs',
             backoff_trace url 1 5)"
    and fr: "\<forall>p'. p' \<noteq> p \<longrightarrow> fs' p' = fs p'"
    by (auto simp: downloadFile_def)
  from r show "fst (downloadFile net wr url p fs)
                 = Inl (Error (''Failed to download file after 5 attempts: '' @ url))"
    and "snd (snd (downloadFile net wr url p fs)) = backoff_trace url 1 5"
    by simp_all
  fix p' assume "p' \<noteq> p"
  with r fr show "fst (snd (downloadFile net wr url p fs)) p' = fs p'" by simp
qed

theorem retry_fetch_bounded_backoff_witness:
  "fetchFile flaky_net ''u''
     = (Inr ''content'',
        [Sleep 750, Request ''u'', Sleep 2000, Request ''u'', Sleep 4000, Request ''u''])
   \<and> fst (downloadFile flaky_net good_disk ''u'' ''f'' [''g'' \<mapsto> ''old'']) = Inr ()
   \<and> snd (snd (downloadFile flaky_net good_disk ''u'' ''f'' [''g'' \<mapsto> ''old'']))
       = [Request ''u'', Sleep 2000, Request ''u'', Sleep 4000, Request ''u'']
   \<and> fst (snd (downloadFile flaky_net good_disk ''u'' ''f'' [''g'' \<mapsto> ''old''])) ''f''
       = Some ''content''
   \<and> fst (snd (downloadFile flaky_net good_disk ''u'' ''f'' [''g'' \<mapsto> ''old''])) ''g''
       = Some ''old''
   \<and> fst (downloadFile good_net flaky_disk ''u'' ''f'' Map.empty) = Inr ()
   \<and> snd (snd (downloadFile good_net flaky_disk ''u'' ''f'' Map.empty))
       = [Request ''u'', Sleep 2000, Request ''u'', Sleep 4000, Request ''u'']
   \<and> fetchFile dead_net ''u''
     = (Inl (Error ''Failed to fetch file after 5 attempts: u''),
        [Sleep 750, Request ''u'', Sleep 2000, Request ''u'', Sleep 4000, Request ''u'',
         Sleep 8000, Request ''u'', Sleep 16000, Request ''u''])
   \<and> fst (downloadFile good_net full_disk ''u'' ''f'' [''g'' \<mapsto> ''old''])
     = Inl (Error ''Failed to download file after 5 attempts: u'')
   \<and> snd (snd (downloadFile good_net full_disk ''u'' ''f'' [''g'' \<mapsto> ''old'']))
     = [Request ''u'', Sleep 2000, Request ''u'', Sleep 4000, Request ''u'',
        Sleep 8000, Request ''u'', Sleep 16000, Request ''u'']
   \<and> fst (snd (downloadFile good_net full_disk ''u'' ''f'' [''g'' \<mapsto> ''old''])) ''g''
     = Some ''old''
   \<and> requests (snd (fetchFile flaky_net ''u'')) \<le> 5
   \<and> requests (snd (snd (downloadFile good_net full_disk ''u'' ''f'' [''g'' \<mapsto> ''old''])))
       \<le> 5"
proof -
  note flaky = retry_fetch_bounded_backoff
    [of flaky_net "''u''" good_disk "''f''" "[''g'' \<mapsto> ''old'']"]
  note wflaky = retry_fetch_bounded_backoff
    [of good_net "''u''" flaky_disk "''f''" Map.empty]
  note dead = retry_fetch_bounded_backoff
    [of dead_net "''u''" good_disk "''f''" Map.empty]
  note full = retry_fetch_bounded_backoff
    [of good_net "''u''" full_disk "''f''" "[''g'' \<mapsto> ''old'']"]
  have t3: "backoff_trace ''u'' 1 (Suc 2)
              = [Request ''u'', Sleep 2000, Request ''u'', Sleep 4000, Request ''u'']"
    by code_simp
  have t5: "backoff_trace ''u'' 1 5
              = [Request ''u'', Sleep 2000, Request ''u'', Sleep 4000, Request ''u'',
                 Sleep 8000, Request ''u'', Sleep 16000, Request ''u'']"
    by code_simp
  have f1: "(2::nat) < 5 \<and> (\<forall>k. 1 \<le> k \<and> k \<le> 2 \<longrightarrow> isl (fetchFile_try flaky_net ''u'' k))
              \<and> fetchFile_try flaky_net ''u'' (Suc 2) = Inr ''content''"
    by (simp add: fetchFile_try_def flaky_net_def)
  have f2: "(2::nat) < 5
              \<and> (\<forall>k. 1 \<le> k \<and> k \<le> 2 \<longrightarrow> isl (downloadFile_try flaky_net good_disk ''u'' ''f'' k))
              \<and> downloadFile_try flaky_net good_disk ''u'' ''f'' (Suc 2) = Inr ''content''"
    by (simp add: downloadFile_try_def flaky_net_def good_disk_def)
  have f3: "(2::nat) < 5
              \<and> (\<forall>k. 1 \<le> k \<and> k \<le> 2 \<longrightarrow> isl (downloadFile_try good_net flaky_disk ''u'' ''f'' k))
              \<and> downloadFile_try good_net flaky_disk ''u'' ''f'' (Suc 2) = Inr ''content''"
    by (simp add: downloadFile_try_def good_net_def flaky_disk_def)
  have d1: "\<forall>k. 1 \<le> k \<and> k \<le> 5 \<longrightarrow> isl (fetchFile_try dead_net ''u'' k)"
    by (simp add: fetchFile_try_def dead_net_def)
  have d2: "\<forall>k. 1 \<le> k \<and> k \<le> 5 \<longrightarrow> isl (downloadFile_try good_net full_disk ''u'' ''f'' k)"
    by (simp add: downloadFile_try_def good_net_def full_disk_def)
  have ne: "''g'' \<noteq> ''f''" by simp
  note r1 = flaky [THEN conjunct2, THEN conjunct2, THEN conjunct1,
      THEN spec, THEN spec, THEN mp, OF f1]
  note r2 = flaky [THEN conjunct2, THEN conjunct2, THEN conjunct2, THEN conjunct1,
      THEN spec, THEN spec, THEN mp, OF f2]
  note r3 = wflaky [THEN conjunct2, THEN conjunct2, THEN conjunct2, THEN conjunct1,
      THEN spec, THEN spec, THEN mp, OF f3]
  note r4 = dead [THEN conjunct2, THEN conjunct2, THEN conjunct2, THEN conjunct2,
      THEN conjunct1, THEN mp, OF d1]
  note r5 = full [THEN conjunct2, THEN conjunct2, THEN conjunct2, THEN conjunct2,
      THEN conjunct2, THEN mp, OF d2]
  note r6 = flaky [THEN conjunct1]
  note r7 = full [THEN conjunct2, THEN conjunct1]
  have g2: "fst (snd (downloadFile flaky_net good_disk ''u'' ''f'' [''g'' \<mapsto> ''old''])) ''g''
              = Some ''old''"
    using r2 [THEN conjunct2, THEN conjunct2, THEN conjunct2, THEN spec, THEN mp, OF ne]
    by simp
  have g5: "fst (snd (downloadFile good_net full_disk ''u'' ''f'' [''g'' \<mapsto> ''old''])) ''g''
              = Some ''old''"
    using r5 [THEN conjunct2, THEN conjunct2, THEN spec, THEN mp, OF ne] by simp
  have a1: "fetchFile flaky_net ''u''
     = (Inr ''content'',
        [Sleep 750, Request ''u'', Sleep 2000, Request ''u'', Sleep 4000, Request ''u''])"
    using r1 [THEN conjunct1] unfolding t3 .
  have a2: "fst (downloadFile flaky_net good_disk ''u'' ''f'' [''g'' \<mapsto> ''old'']) = Inr ()"
    using r2 [THEN conjunct1] .
  have a3: "snd (snd (downloadFile flaky_net good_disk ''u'' ''f'' [''g'' \<mapsto> ''old'']))
       = [Request ''u'', Sleep 2000, Request ''u'', Sleep 4000, Request ''u'']"
    using r2 [THEN conjunct2, THEN conjunct1] unfolding t3 .
  have a4: "fst (snd (downloadFile flaky_net good_disk ''u'' ''f'' [''g'' \<mapsto> ''old''])) ''f''
       = Some ''content''"
    using r2 [THEN conjunct2, THEN conjunct2, THEN conjunct1] .
  have a5: "fst (downloadFile good_net flaky_disk ''u'' ''f'' Map.empty) = Inr ()"
    using r3 [THEN conjunct1] .
  have a6: "snd (snd (downloadFile good_net flaky_disk ''u'' ''f'' Map.empty))
       = [Request ''u'', Sleep 2000, Request ''u'', Sleep 4000, Request ''u'']"
    using r3 [THEN conjunct2, THEN conjunct1] unfolding t3 .
  have a7: "fetchFile dead_net ''u''
     = (Inl (Error ''Failed to fetch file after 5 attempts: u''),
        [Sleep 750, Request ''u'', Sleep 2000, Request ''u'', Sleep 4000, Request ''u'',
         Sleep 8000, Request ''u'', Sleep 16000, Request ''u''])"
    using r4 [THEN conjunct1] unfolding t5 by simp
  have a8: "fst (downloadFile good_net full_disk ''u'' ''f'' [''g'' \<mapsto> ''old''])
     = Inl (Error ''Failed to download file after 5 attempts: u'')"
    using r5 [THEN conjunct1] by simp
  have a9: "snd (snd (downloadFile good_net full_disk ''u'' ''f'' [''g'' \<mapsto> ''old'']))
     = [Request ''u'', Sleep 2000, Request ''u'', Sleep 4000, Request ''u'',
        Sleep 8000, Request ''u'', Sleep 16000, Request ''u'']"
    using r5 [THEN conjunct2, THEN conjunct1] unfolding t5 .
  show ?thesis
    by (intro conjI a1 a2 a3 a4 g2 a5 a6 a7 a8 a9 g5 r6 r7)
qed

section \<open>The key-value store\<close>

lemma kv_get_kv_set: "kv_get k (kv_set k' v s) = (if k = k' then Some v else kv_get k s)"
  by (simp add: kv_get_def kv_set_def update_conv')

lemma keys_kv_set: "set (map fst (kv_set k v s)) = insert k (set (map fst s))"
  using dom_update [of k v s] by (simp add: kv_set_def)

lemma distinct_kv_set: "distinct (map fst s) \<Longrightarrow> distinct (map fst (kv_set k v s))"
  by (simp add: kv_set_def distinct_update)

lemma kv_get_mem: "kv_get k s = Some v \<Longrightarrow> (k, v) \<in> set s"
  by (simp add: kv_get_def map_of_SomeD)

lemma kv_get_distinct: "distinct (map fst s) \<Longrightarrow> (k, v) \<in> set s \<Longrightarrow> kv_get k s = Some v"
  by (simp add: kv_get_def)

lemma keys_kv_set_present:
  "k \<in> set (map fst s) \<Longrightarrow> map fst (kv_set k v s) = map fst s"
  by (induction s) (auto simp: kv_set_def)

lemma scanIterator_kv_set_present:
  "k \<in> set (map fst s) \<Longrightarrow> scanIterator p (kv_set k v s) = scanIterator p s"
  by (simp add: scanIterator_def keys_kv_set_present)

lemma scanIterator_kv_set_other:
  "\<not> prefix p k \<Longrightarrow> scanIterator p (kv_set k v s) = scanIterator p s"
  by (induction s) (auto simp: kv_set_def scanIterator_def)

section \<open>Listing and sorting\<close>

lemma set_sort_insert: "set (sort_insert x ys) = insert x (set ys)"
  by (induction ys) auto

lemma set_array_sort: "set (array_sort xs) = set xs"
  by (induction xs) (auto simp: array_sort_def set_sort_insert)

lemma mset_sort_insert: "mset (sort_insert x ys) = add_mset x (mset ys)"
  by (induction ys) auto

lemma mset_array_sort: "mset (array_sort xs) = mset xs"
  by (induction xs) (auto simp: array_sort_def mset_sort_insert)

lemma getJobs_member:
  assumes "kv_get k s = Some v" and "prefix p k" and "truthy v"
  shows "v \<in> set (getJobs p s)"
proof -
  from assms(1) have "k \<in> set (map fst s)"
    by (auto dest!: kv_get_mem intro: rev_image_eqI)
  with assms(2) have "k \<in> set (scanIterator p s)"
    by (simp add: scanIterator_def)
  with assms(1) have
    "v \<in> set (map (\<lambda>key. case kv_get key s of None \<Rightarrow> VEmpty | Some v \<Rightarrow> v) (scanIterator p s))"
    by (force simp: image_iff)
  with assms(3) show ?thesis
    by (simp add: getJobs_def set_array_sort)
qed

lemma getJobs_values:
  assumes "v \<in> set (getJobs p s)"
  shows "\<exists>k. prefix p k \<and> (k, v) \<in> set s"
proof -
  from assms obtain k where k: "k \<in> set (scanIterator p s)"
    and v: "v = (case kv_get k s of None \<Rightarrow> VEmpty | Some v \<Rightarrow> v)"
    by (auto simp: getJobs_def set_array_sort)
  from k have p: "prefix p k" and "k \<in> fst ` set s"
    by (auto simp: scanIterator_def)
  then obtain v' where "kv_get k s = Some v'"
    by (cases "kv_get k s") (auto simp: kv_get_def map_of_eq_None_iff)
  with v p show ?thesis
    by (auto dest: kv_get_mem)
qed

section \<open>The barrier never opens\<close>

lemma prefix_marker_key: "prefix (group_prefix g) (marker_key g i)"
  by (simp add: marker_key_def)

lemma checkGroupCompletion_marker:
  assumes "kv_get (marker_key g i) s = Some (VStr m)" and "m \<noteq> []"
  shows "\<not> checkGroupCompletion g s"
proof -
  have "VStr m \<in> set (getJobs (group_prefix g) s)"
    using assms by (intro getJobs_member [of "marker_key g i"]) (simp_all add: prefix_marker_key)
  moreover have "get_status (VStr m) \<noteq> Some Completed" by simp
  ultimately show ?thesis
    unfolding checkGroupCompletion_def list_all_iff by blast
qed

text \<open>
  So \<^verbatim>\<open>processJob\<close> is three writes of the job record and one of the marker, whatever
  the store holds and whatever the generation does.
\<close>

lemma processJob_eq:
  "processJob env j w =
     w\<lparr>kv := kv_set (marker_key (groupId j) (job_id j)) (VStr ''completed'')
              (kv_set (job_key (job_id j))
                 (VJob (j\<lparr>result := Some ''{}'', status := Completed, updatedAt := Date_now env\<rparr>))
                 (kv_set (job_key (job_id j))
                    (VJob (j\<lparr>status := InProgress, updatedAt := Date_now env\<rparr>)) (kv w)))\<rparr>"
proof -
  let ?mk = "marker_key (groupId j) (job_id j)"
  let ?s2 = "kv_set (job_key (job_id j))
                 (VJob (j\<lparr>result := Some ''{}'', status := Completed, updatedAt := Date_now env\<rparr>))
                 (kv_set (job_key (job_id j))
                    (VJob (j\<lparr>status := InProgress, updatedAt := Date_now env\<rparr>)) (kv w))"
  have "\<not> checkGroupCompletion (groupId j) (kv_set ?mk (VStr ''completed'') ?s2)"
    by (rule checkGroupCompletion_marker [of _ "job_id j" _ "''completed''"])
       (simp_all add: kv_get_kv_set)
  then show ?thesis
    by (simp add: processJob_def processFile_def saveJobWithStatus_def Let_def)
qed

section \<open>Assembling the artifact\<close>

lemma fromEntries_last:
  "map_of (object_fromEntries (es @ [(k, v)])) k = Some v"
  by (simp add: object_fromEntries_def update_conv')

lemma foldl_update_keys:
  "set (map fst (foldl (\<lambda>obj (k, v). AList.update k v obj) acc es))
     = set (map fst acc) \<union> set (map fst es)"
proof (induction es arbitrary: acc)
  case Nil
  then show ?case by simp
next
  case (Cons e es)
  obtain k v where e: "e = (k, v)" by (cases e)
  show ?case using Cons.IH [of "AList.update k v acc"] dom_update [of k v acc]
    by (auto simp: e)
qed

lemma foldl_update_distinct:
  "distinct (map fst acc) \<Longrightarrow>
   distinct (map fst (foldl (\<lambda>obj (k, v). AList.update k v obj) acc es))"
proof (induction es arbitrary: acc)
  case Nil
  then show ?case by simp
next
  case (Cons e es)
  obtain k v where e: "e = (k, v)" by (cases e)
  show ?case using Cons.IH [of "AList.update k v acc"] Cons.prems
    by (simp add: e distinct_update)
qed

lemma fromEntries_keys: "set (map fst (object_fromEntries es)) = set (map fst es)"
  using foldl_update_keys [of "[]" es] by (simp add: object_fromEntries_def)

lemma fromEntries_distinct: "distinct (map fst (object_fromEntries es))"
  using foldl_update_distinct [of "[]" es] by (simp add: object_fromEntries_def)

lemma fromEntries_length: "length (object_fromEntries es) = card (set (map fst es))"
proof -
  have "length (object_fromEntries es) = length (map fst (object_fromEntries es))" by simp
  also have "\<dots> = card (set (map fst (object_fromEntries es)))"
    using fromEntries_distinct [of es] by (simp only: distinct_card)
  finally show ?thesis by (simp only: fromEntries_keys)
qed

lemma those_job_entries:
  "those (map job_entry (map VJob jobs)) = Some (map (\<lambda>j. (path (job_file j), result j)) jobs)"
  by (induction jobs) (simp_all add: job_entry_def)

lemma assembleDocument_jobs:
  "jobs \<noteq> [] \<Longrightarrow>
   assembleDocument env (map VJob jobs)
     = Inr (object_fromEntries (map (\<lambda>j. (path (job_file j), result j)) jobs
              @ [(''metadata'', Some ''[object Object]'')]))"
  using those_job_entries [of jobs]
  by (cases jobs) (auto simp: assembleDocument_def template_literal_def split: option.splits)

text \<open>
  C10. When a job of the group has the file path \<^verbatim>\<open>metadata\<close>, the assembled artifact
  is built from the job entries followed by the reserved entry, and what it holds under
  that job's path is the reserved entry's text, not the job's result; the artifact has one
  key per distinct path, so at most as many entries as there are jobs.
\<close>

theorem assembleDocument_metadata_path_overwritten:
  assumes "j \<in> set jobs" and "path (job_file j) = ''metadata''"
  shows "\<exists>doc. assembleDocument env (map VJob jobs) = Inr doc
           \<and> doc = object_fromEntries (map (\<lambda>j. (path (job_file j), result j)) jobs
                     @ [(''metadata'', Some ''[object Object]'')])
           \<and> map_of doc (path (job_file j)) = Some (Some ''[object Object]'')
           \<and> distinct (map fst doc)
           \<and> length doc \<le> length jobs"
proof -
  let ?es = "map (\<lambda>j. (path (job_file j), result j)) jobs"
  let ?doc = "object_fromEntries (?es @ [(''metadata'', Some ''[object Object]'')])"
  from assms(1) have ne: "jobs \<noteq> []" by auto
  have "''metadata'' \<in> set (map fst ?es)"
    using assms by (force simp: image_iff)
  then have "set (map fst (?es @ [(''metadata'', Some ''[object Object]'')])) = set (map fst ?es)"
    by auto
  then have "length ?doc = card (set (map fst ?es))"
    by (simp only: fromEntries_length)
  also have "\<dots> \<le> length (map fst ?es)" by (rule card_length)
  finally have len: "length ?doc \<le> length jobs" by simp
  show ?thesis
    using assembleDocument_jobs [OF ne, of env] fromEntries_last [of ?es] len
      fromEntries_distinct [of "?es @ [(''metadata'', Some ''[object Object]'')]"] assms(2)
    by simp
qed

theorem assembleDocument_metadata_path_overwritten_witness:
  "assembleDocument env_dead
       [VJob (job1\<lparr>result := Some ''r1''\<rparr>),
        VJob (job1\<lparr>job_file := \<lparr>path = ''metadata'', download_url = ''u''\<rparr>,
                    result := Some ''r2''\<rparr>)]
     = Inr [(''a.js'', Some ''r1''), (''metadata'', Some ''[object Object]'')]"
proof -
  let ?j = "job1\<lparr>job_file := \<lparr>path = ''metadata'', download_url = ''u''\<rparr>, result := Some ''r2''\<rparr>"
  let ?jobs = "[job1\<lparr>result := Some ''r1''\<rparr>, ?j]"
  have m: "?j \<in> set ?jobs" by simp
  have p: "path (job_file ?j) = ''metadata''" by simp
  from assembleDocument_metadata_path_overwritten [OF m p, of env_dead]
  have "assembleDocument env_dead (map VJob ?jobs)
          = Inr (object_fromEntries (map (\<lambda>j. (path (job_file j), result j)) ?jobs
                   @ [(''metadata'', Some ''[object Object]'')]))"
    by blast
  then show ?thesis
    by (simp add: job1_def object_fromEntries_def)
qed

section \<open>What a pass writes\<close>

lemma processJob_kv_get_other:
  "k \<noteq> job_key (job_id j) \<Longrightarrow> k \<noteq> marker_key (groupId j) (job_id j) \<Longrightarrow>
   kv_get k (kv (processJob env j w)) = kv_get k (kv w)"
  by (simp add: processJob_eq kv_get_kv_set)

lemma processJob_keys_present:
  "job_key (job_id j) \<in> set (map fst (kv w)) \<Longrightarrow>
   marker_key (groupId j) (job_id j) \<in> set (map fst (kv w)) \<Longrightarrow>
   map fst (kv (processJob env j w)) = map fst (kv w)"
  by (simp add: processJob_eq keys_kv_set_present)

lemma processJob_artifacts:
  "written (processJob env j w) = written w \<and> uploaded (processJob env j w) = uploaded w"
  by (simp add: processJob_eq)

lemma fold_processJob_kv_get_other:
  "\<forall>j \<in> set js. k \<noteq> job_key (job_id j) \<and> k \<noteq> marker_key (groupId j) (job_id j) \<Longrightarrow>
   kv_get k (kv (foldl (\<lambda>w' j. processJob env j w') w js)) = kv_get k (kv w)"
  by (induction js arbitrary: w) (simp_all add: processJob_kv_get_other)

lemma fold_processJob_keys_present:
  "\<forall>j \<in> set js. job_key (job_id j) \<in> set (map fst (kv w))
                \<and> marker_key (groupId j) (job_id j) \<in> set (map fst (kv w)) \<Longrightarrow>
   map fst (kv (foldl (\<lambda>w' j. processJob env j w') w js)) = map fst (kv w)"
proof (induction js arbitrary: w)
  case Nil
  then show ?case by simp
next
  case (Cons j js)
  have keys: "map fst (kv (processJob env j w)) = map fst (kv w)"
    using Cons.prems by (simp add: processJob_keys_present)
  have "map fst (kv (foldl (\<lambda>w' j. processJob env j w') (processJob env j w) js))
          = map fst (kv (processJob env j w))"
    using Cons.prems keys by (intro Cons.IH) simp
  with keys show ?case by simp
qed

lemma as_jobs_Nil [simp]: "as_jobs [] = []"
  by (simp add: as_jobs_def)

lemma as_jobs_Cons_VJob [simp]: "as_jobs (VJob j # vs) = j # as_jobs vs"
  by (simp add: as_jobs_def)

lemma as_jobs_filter_status:
  "as_jobs (filter (\<lambda>v. get_status v = Some st) vs) = filter (\<lambda>j. status j = st) (as_jobs vs)"
proof (induction vs)
  case Nil
  then show ?case by simp
next
  case (Cons v vs)
  then show ?case by (cases v) (simp_all add: as_jobs_def)
qed

lemma GET_authorized:
  assumes "authorization = Some (''Bearer '' @ (case cron_secret of None \<Rightarrow> ''undefined'' | Some c \<Rightarrow> c))"
  shows "GET env authorization cron_secret w = (200, processJobs env (eligibleJobs env (kv w)) 50 w)"
  using assms
  by (auto simp: GET_def Let_def eligibleJobs_def staleInProgress_def queued_def processJobs_def
      jobsToProcess_def)

lemma GET_unauthorized:
  assumes "authorization \<noteq> Some (''Bearer '' @ (case cron_secret of None \<Rightarrow> ''undefined'' | Some c \<Rightarrow> c))"
  shows "GET env authorization cron_secret w = (401, w)"
  using assms by (simp add: GET_def)

section \<open>The listing of a well-formed store\<close>

lemma sort_insert_VJob:
  "sort_insert (VJob j) (map VJob js) = map VJob (insort_key updatedAt j js)"
  by (induction js) (auto simp: sorts_after_def compare_updatedAt_def)

lemma array_sort_VJob: "array_sort (map VJob js) = map VJob (sort_key updatedAt js)"
  by (induction js) (simp_all add: array_sort_def sort_insert_VJob sort_key_def)

lemma as_jobs_map_VJob [simp]: "as_jobs (map VJob js) = js"
  by (induction js) simp_all

lemma wf_store_lookup:
  assumes "wf_store s" and "k \<in> set (scanIterator ''job:'' s)"
  shows "\<exists>j. kv_get k s = Some (VJob j) \<and> k = job_key (job_id j)
             \<and> CHR '':'' \<notin> set (groupId j)
             \<and> marker_key (groupId j) (job_id j) \<in> set (map fst s)"
proof -
  from assms(2) have p: "prefix ''job:'' k" and "k \<in> fst ` set s"
    by (auto simp: scanIterator_def)
  then obtain v where kv: "(k, v) \<in> set s" by auto
  with assms(1) have "wf_entry (map fst s) (k, v)" and d: "distinct (map fst s)"
    by (auto simp: wf_store_def list_all_iff)
  with p obtain j where "v = VJob j" "k = job_key (job_id j)" "CHR '':'' \<notin> set (groupId j)"
    "marker_key (groupId j) (job_id j) \<in> set (map fst s)"
    by (cases v) (auto simp: wf_entry_def)
  with kv d show ?thesis
    by (auto simp: kv_get_distinct)
qed

lemma lookup_all_jobs:
  assumes "\<forall>k \<in> set ks. \<exists>j. f k = VJob j \<and> k = job_key (job_id j)"
  shows "map f ks = map VJob (as_jobs (map f ks))
         \<and> map (\<lambda>j. job_key (job_id j)) (as_jobs (map f ks)) = ks"
  using assms
proof (induction ks)
  case Nil
  then show ?case by simp
next
  case (Cons k ks)
  then obtain j where "f k = VJob j" "k = job_key (job_id j)" by auto
  with Cons show ?case by simp
qed

lemma getJobs_wf:
  assumes "wf_store s"
  shows "getJobs ''job:'' s = map VJob (sort_key updatedAt (listed s))"
    and "distinct (map job_id (listed s))"
    and "\<forall>j \<in> set (listed s). kv_get (job_key (job_id j)) s = Some (VJob j)
            \<and> CHR '':'' \<notin> set (groupId j)
            \<and> marker_key (groupId j) (job_id j) \<in> set (map fst s)"
proof -
  let ?f = "\<lambda>key. case kv_get key s of None \<Rightarrow> VEmpty | Some v \<Rightarrow> v"
  let ?ks = "scanIterator ''job:'' s"
  have all: "\<forall>k \<in> set ?ks. \<exists>j. ?f k = VJob j \<and> k = job_key (job_id j)"
    using wf_store_lookup [OF assms] by fastforce
  note L = lookup_all_jobs [OF all]
  from L have vals: "map ?f ?ks = map VJob (listed s)"
    by (simp add: listed_def)
  have "filter truthy (map VJob (listed s)) = map VJob (listed s)"
    by (induction "listed s") (auto simp: filter_id_conv)
  with vals show "getJobs ''job:'' s = map VJob (sort_key updatedAt (listed s))"
    by (simp add: getJobs_def array_sort_VJob)
  from L have keys: "map (\<lambda>j. job_key (job_id j)) (listed s) = ?ks"
    by (simp add: listed_def)
  from assms have "distinct ?ks"
    by (simp add: wf_store_def scanIterator_def)
  with keys have "distinct (map (\<lambda>j. job_key (job_id j)) (listed s))" by simp
  then have "distinct (map (job_key \<circ> job_id) (listed s))" by (simp add: comp_def)
  then show "distinct (map job_id (listed s))"
    by (metis distinct_map map_map)
  show "\<forall>j \<in> set (listed s). kv_get (job_key (job_id j)) s = Some (VJob j)
            \<and> CHR '':'' \<notin> set (groupId j)
            \<and> marker_key (groupId j) (job_id j) \<in> set (map fst s)"
  proof
    fix j assume "j \<in> set (listed s)"
    then have "job_key (job_id j) \<in> set ?ks"
      using keys by (metis (no_types, lifting) image_eqI list.set_map)
    from wf_store_lookup [OF assms this] obtain j' where
      j': "kv_get (job_key (job_id j)) s = Some (VJob j')"
        "CHR '':'' \<notin> set (groupId j')" "marker_key (groupId j') (job_id j') \<in> set (map fst s)"
      by blast
    moreover have "VJob j \<in> set (map ?f ?ks)"
      using \<open>j \<in> set (listed s)\<close> vals by simp
    then obtain k where "k \<in> set ?ks" "?f k = VJob j" by auto
    moreover from wf_store_lookup [OF assms \<open>k \<in> set ?ks\<close>] \<open>?f k = VJob j\<close>
    have "k = job_key (job_id j)" by auto
    ultimately have "j' = j" by simp
    with j' show "kv_get (job_key (job_id j)) s = Some (VJob j)
            \<and> CHR '':'' \<notin> set (groupId j)
            \<and> marker_key (groupId j) (job_id j) \<in> set (map fst s)" by simp
  qed
qed

section \<open>The batch of a pass\<close>

lemma as_jobs_filterForStaleJobs:
  "as_jobs (filterForStaleJobs now vs t) = filter (\<lambda>j. now - updatedAt j > t) (as_jobs vs)"
proof (induction vs)
  case Nil
  then show ?case by (simp add: filterForStaleJobs_def)
next
  case (Cons v vs)
  then show ?case by (cases v) (simp_all add: filterForStaleJobs_def as_jobs_def)
qed

lemma staleInProgress_all_jobs:
  "v \<in> set (staleInProgress env s) \<Longrightarrow> \<exists>j. v = VJob j"
  by (cases v) (auto simp: staleInProgress_def filterForStaleJobs_def)

lemma as_jobs_eq_Nil: "\<forall>v \<in> set vs. \<exists>j. v = VJob j \<Longrightarrow> as_jobs vs = [] \<longleftrightarrow> vs = []"
  by (cases vs) auto

lemma staleInProgress_Nil:
  "staleInProgress env s = [] \<longleftrightarrow> as_jobs (staleInProgress env s) = []"
  using as_jobs_eq_Nil [of "staleInProgress env s"] staleInProgress_all_jobs by blast

lemma as_jobs_staleInProgress:
  "as_jobs (staleInProgress env s)
     = filter (\<lambda>j. Date_now env - updatedAt j > 360000)
         (filter (\<lambda>j. status j = InProgress) (as_jobs (getJobs ''job:'' s)))"
  by (simp add: staleInProgress_def as_jobs_filterForStaleJobs as_jobs_filter_status)

lemma as_jobs_queued:
  "as_jobs (queued s) = filter (\<lambda>j. status j = Queued) (as_jobs (getJobs ''job:'' s))"
  by (simp add: queued_def as_jobs_filter_status)

lemma eligibleJobs_filter:
  "eligibleJobs env s
     = filter (\<lambda>j. if staleInProgress env s \<noteq> []
                    then status j = InProgress \<and> Date_now env - updatedAt j > 360000
                    else status j = Queued)
         (as_jobs (getJobs ''job:'' s))"
  by (simp add: eligibleJobs_def as_jobs_staleInProgress as_jobs_queued conj_commute)

lemma eligibleJobs_stale:
  "staleInProgress env s \<noteq> [] \<Longrightarrow> j \<in> set (eligibleJobs env s) \<Longrightarrow>
   status j = InProgress \<and> Date_now env - updatedAt j > 360000"
  by (simp add: eligibleJobs_filter)

lemma eligibleJobs_queued:
  "staleInProgress env s = [] \<Longrightarrow> j \<in> set (eligibleJobs env s) \<Longrightarrow> status j = Queued"
  by (simp add: eligibleJobs_filter)

lemma eligibleJobs_wf:
  assumes "wf_store s"
  shows "sorted (map updatedAt (eligibleJobs env s))"
    and "distinct (map job_id (eligibleJobs env s))"
    and "set (eligibleJobs env s) \<subseteq> set (listed s)"
proof -
  have J: "as_jobs (getJobs ''job:'' s) = sort_key updatedAt (listed s)"
    by (simp add: getJobs_wf(1) [OF assms])
  have "sorted (map updatedAt (sort_key updatedAt (listed s)))"
    by (rule sorted_sort_key)
  then show "sorted (map updatedAt (eligibleJobs env s))"
    unfolding eligibleJobs_filter J by (rule sorted_filter)
  have "mset (map job_id (sort_key updatedAt (listed s))) = mset (map job_id (listed s))"
    by simp
  then have "distinct (map job_id (sort_key updatedAt (listed s)))"
    using getJobs_wf(2) [OF assms] by (metis mset_eq_imp_distinct_iff)
  then show "distinct (map job_id (eligibleJobs env s))"
    unfolding eligibleJobs_filter J by (rule distinct_map_filter)
  show "set (eligibleJobs env s) \<subseteq> set (listed s)"
    unfolding eligibleJobs_filter J by auto
qed

lemma marker_key_inj:
  assumes "CHR '':'' \<notin> set g" and "CHR '':'' \<notin> set g'"
    and "marker_key g i = marker_key g' i'"
  shows "g = g' \<and> i = i'"
proof -
  from assms(3) have eq: "g @ CHR '':'' # i = g' @ CHR '':'' # i'"
    by (simp add: marker_key_def group_prefix_def)
  have "takeWhile (\<lambda>c. c \<noteq> CHR '':'') (g @ CHR '':'' # i) = g"
    using assms(1) by (subst takeWhile_append2) auto
  moreover have "takeWhile (\<lambda>c. c \<noteq> CHR '':'') (g' @ CHR '':'' # i') = g'"
    using assms(2) by (subst takeWhile_append2) auto
  ultimately have "g = g'" using eq by simp
  with eq show ?thesis by simp
qed

lemma job_key_neq_marker_key: "job_key i \<noteq> marker_key g i'"
  by (simp add: job_key_def marker_key_def group_prefix_def)

lemma job_key_inj: "job_key i = job_key i' \<longleftrightarrow> i = i'"
  by (simp add: job_key_def)

lemma not_group_prefix_job_key: "\<not> prefix (group_prefix g) (job_key i)"
  by (simp add: job_key_def group_prefix_def)

lemma take_drop_ids_disjoint:
  assumes "distinct (map job_id E)" and "a \<in> set (take n E)" and "b \<in> set (drop n E)"
  shows "job_id a \<noteq> job_id b"
proof -
  have "distinct (map job_id (take n E) @ map job_id (drop n E))"
    using assms(1) by (simp add: take_map [symmetric] drop_map [symmetric])
  then have "set (map job_id (take n E)) \<inter> set (map job_id (drop n E)) = {}"
    by simp
  with assms(2,3) show ?thesis by auto
qed

lemma pass_keys_unchanged:
  assumes wf: "wf_store (kv w)"
  shows "map fst (kv (processJobs env (eligibleJobs env (kv w)) 50 w)) = map fst (kv w)"
proof -
  let ?E = "eligibleJobs env (kv w)"
  note E = eligibleJobs_wf [OF wf, of env]
  note L = getJobs_wf(3) [OF wf]
  have "\<forall>j \<in> set (jobsToProcess ?E 50). job_key (job_id j) \<in> set (map fst (kv w))
                \<and> marker_key (groupId j) (job_id j) \<in> set (map fst (kv w))"
  proof
    fix j assume "j \<in> set (jobsToProcess ?E 50)"
    then have "j \<in> set (listed (kv w))"
      using E(3) by (auto simp: jobsToProcess_def dest: in_set_takeD)
    with L have "kv_get (job_key (job_id j)) (kv w) = Some (VJob j)"
      and m: "marker_key (groupId j) (job_id j) \<in> set (map fst (kv w))" by auto
    then have "(job_key (job_id j), VJob j) \<in> set (kv w)" by (auto dest: kv_get_mem)
    then have "job_key (job_id j) \<in> set (map fst (kv w))" by force
    with m show "job_key (job_id j) \<in> set (map fst (kv w))
                \<and> marker_key (groupId j) (job_id j) \<in> set (map fst (kv w))" by simp
  qed
  then show ?thesis
    unfolding processJobs_def by (rule fold_processJob_keys_present)
qed

lemma set_as_jobs: "set (as_jobs vs) = {j. VJob j \<in> set vs}"
proof (induction vs)
  case Nil
  then show ?case by simp
next
  case (Cons v vs)
  then show ?case by (cases v) (auto simp: as_jobs_def)
qed

lemma listed_member:
  assumes wf: "wf_store s" and m: "(k, VJob q) \<in> set s" and p: "prefix ''job:'' k"
  shows "q \<in> set (listed s)"
proof -
  from wf have d: "distinct (map fst s)" by (simp add: wf_store_def)
  with m have g: "kv_get k s = Some (VJob q)" by (simp add: kv_get_distinct)
  from m p have "k \<in> set (scanIterator ''job:'' s)"
    by (force simp: scanIterator_def)
  with g show ?thesis
    by (force simp: listed_def set_as_jobs image_iff)
qed

lemma pass_frame:
  assumes wf: "wf_store (kv w)" and j: "j \<in> set (listed (kv w))"
    and ids: "\<forall>a \<in> set (jobsToProcess (eligibleJobs env (kv w)) 50). job_id a \<noteq> job_id j"
  shows "kv_get (job_key (job_id j)) (kv (processJobs env (eligibleJobs env (kv w)) 50 w))
           = Some (VJob j)
         \<and> kv_get (marker_key (groupId j) (job_id j))
              (kv (processJobs env (eligibleJobs env (kv w)) 50 w))
           = kv_get (marker_key (groupId j) (job_id j)) (kv w)"
proof -
  let ?E = "eligibleJobs env (kv w)"
  let ?P = "jobsToProcess ?E 50"
  note E = eligibleJobs_wf [OF wf, of env]
  note L = getJobs_wf(3) [OF wf]
  from j L have jl: "kv_get (job_key (job_id j)) (kv w) = Some (VJob j)"
    and jc: "CHR '':'' \<notin> set (groupId j)" by auto
  have "\<forall>a \<in> set ?P. job_key (job_id j) \<noteq> job_key (job_id a)
          \<and> job_key (job_id j) \<noteq> marker_key (groupId a) (job_id a)"
    using ids by (auto simp: job_key_inj job_key_neq_marker_key)
  then have one: "kv_get (job_key (job_id j)) (kv (processJobs env ?E 50 w)) = Some (VJob j)"
    unfolding processJobs_def using jl by (simp add: fold_processJob_kv_get_other)
  have "\<forall>a \<in> set ?P. marker_key (groupId j) (job_id j) \<noteq> job_key (job_id a)
          \<and> marker_key (groupId j) (job_id j) \<noteq> marker_key (groupId a) (job_id a)"
  proof
    fix a assume a: "a \<in> set ?P"
    then have "a \<in> set (listed (kv w))"
      using E(3) by (auto simp: jobsToProcess_def dest: in_set_takeD)
    with L have "CHR '':'' \<notin> set (groupId a)" by auto
    with jc ids a show "marker_key (groupId j) (job_id j) \<noteq> job_key (job_id a)
          \<and> marker_key (groupId j) (job_id j) \<noteq> marker_key (groupId a) (job_id a)"
      using marker_key_inj [of "groupId j" "groupId a" "job_id j" "job_id a"]
        job_key_neq_marker_key [of "job_id a" "groupId j" "job_id j"]
      by auto
  qed
  then have "kv_get (marker_key (groupId j) (job_id j)) (kv (processJobs env ?E 50 w))
           = kv_get (marker_key (groupId j) (job_id j)) (kv w)"
    unfolding processJobs_def by (simp add: fold_processJob_kv_get_other)
  with one show ?thesis by simp
qed

lemma jobsToProcess_take: "jobsToProcess jobs n = take n jobs"
  by (simp add: jobsToProcess_def min_def)

lemma stale_job_in_store:
  assumes "kv_get k s = Some (VJob j)" and "prefix ''job:'' k" and "status j = InProgress"
    and "Date_now env - updatedAt j > 60000 * 6"
  shows "staleInProgress env s \<noteq> []"
proof -
  have "VJob j \<in> set (getJobs ''job:'' s)"
    using assms(1,2) by (intro getJobs_member [of k]) simp_all
  with assms(3,4) have "VJob j \<in> set (staleInProgress env s)"
    by (simp add: staleInProgress_def filterForStaleJobs_def)
  then show ?thesis by auto
qed

lemma GET_kv_cases:
  "snd (GET env a c w) = w
   \<or> snd (GET env a c w) = processJobs env (eligibleJobs env (kv w)) 50 w"
  by (cases "a = Some (''Bearer '' @ (case c of None \<Rightarrow> ''undefined'' | Some x \<Rightarrow> x))")
     (simp_all add: GET_authorized GET_unauthorized)

text \<open>
  C2. When the store holds an in-progress job whose \<open>updatedAt\<close> is more than 6 minutes
  old, an authorized pass runs \<^verbatim>\<open>processJob\<close> on jobs that are all in-progress and stale,
  and, in a well-formed store, leaves the record and the marker of every queued job as
  they were. A pass whose batch contains a queued job found no stale in-progress job.
\<close>

theorem stale_jobs_take_the_pass:
  "(a = Some (''Bearer '' @ (case c of None \<Rightarrow> ''undefined'' | Some x \<Rightarrow> x))
      \<longrightarrow> GET env a c w
            = (200, foldl (\<lambda>w' j. processJob env j w') w
                      (jobsToProcess (eligibleJobs env (kv w)) 50)))
   \<and> ((\<exists>k j. kv_get k (kv w) = Some (VJob j) \<and> prefix ''job:'' k \<and> status j = InProgress
              \<and> Date_now env - updatedAt j > 60000 * 6)
       \<longrightarrow> (\<forall>j \<in> set (jobsToProcess (eligibleJobs env (kv w)) 50).
               status j = InProgress \<and> Date_now env - updatedAt j > 60000 * 6)
           \<and> (wf_store (kv w)
                \<longrightarrow> (\<forall>k q. (k, VJob q) \<in> set (kv w) \<and> prefix ''job:'' k \<and> status q = Queued
                       \<longrightarrow> kv_get k (kv (snd (GET env a c w))) = Some (VJob q)
                           \<and> kv_get (marker_key (groupId q) (job_id q)) (kv (snd (GET env a c w)))
                               = kv_get (marker_key (groupId q) (job_id q)) (kv w))))
   \<and> ((\<exists>j \<in> set (jobsToProcess (eligibleJobs env (kv w)) 50). status j = Queued)
       \<longrightarrow> staleInProgress env (kv w) = []
           \<and> \<not> (\<exists>k j. kv_get k (kv w) = Some (VJob j) \<and> prefix ''job:'' k
                       \<and> status j = InProgress \<and> Date_now env - updatedAt j > 60000 * 6))"
proof (intro conjI impI)
  assume "a = Some (''Bearer '' @ (case c of None \<Rightarrow> ''undefined'' | Some x \<Rightarrow> x))"
  then show "GET env a c w
      = (200, foldl (\<lambda>w' j. processJob env j w') w (jobsToProcess (eligibleJobs env (kv w)) 50))"
    by (simp add: GET_authorized processJobs_def)
next
  assume "\<exists>k j. kv_get k (kv w) = Some (VJob j) \<and> prefix ''job:'' k \<and> status j = InProgress
              \<and> Date_now env - updatedAt j > 60000 * 6"
  then have st: "staleInProgress env (kv w) \<noteq> []"
    using stale_job_in_store by blast
  then show "\<forall>j \<in> set (jobsToProcess (eligibleJobs env (kv w)) 50).
               status j = InProgress \<and> Date_now env - updatedAt j > 60000 * 6"
    using eligibleJobs_stale [of env "kv w"]
    by (auto simp: jobsToProcess_take dest: in_set_takeD)
next
  assume ex: "\<exists>k j. kv_get k (kv w) = Some (VJob j) \<and> prefix ''job:'' k \<and> status j = InProgress
              \<and> Date_now env - updatedAt j > 60000 * 6"
    and wf: "wf_store (kv w)"
  from ex have st: "staleInProgress env (kv w) \<noteq> []"
    using stale_job_in_store by blast
  show "\<forall>k q. (k, VJob q) \<in> set (kv w) \<and> prefix ''job:'' k \<and> status q = Queued
          \<longrightarrow> kv_get k (kv (snd (GET env a c w))) = Some (VJob q)
              \<and> kv_get (marker_key (groupId q) (job_id q)) (kv (snd (GET env a c w)))
                  = kv_get (marker_key (groupId q) (job_id q)) (kv w)"
  proof (intro allI impI)
    fix k q
    assume h: "(k, VJob q) \<in> set (kv w) \<and> prefix ''job:'' k \<and> status q = Queued"
    then have ql: "q \<in> set (listed (kv w))"
      using listed_member [OF wf] by blast
    from wf h have g: "kv_get k (kv w) = Some (VJob q)"
      by (simp add: wf_store_def kv_get_distinct)
    with getJobs_wf(3) [OF wf] ql have k: "k = job_key (job_id q)"
      using h wf by (auto simp: wf_store_def list_all_iff wf_entry_def)
    have ids: "\<forall>b \<in> set (jobsToProcess (eligibleJobs env (kv w)) 50). job_id b \<noteq> job_id q"
    proof
      fix b assume b: "b \<in> set (jobsToProcess (eligibleJobs env (kv w)) 50)"
      then have bE: "b \<in> set (eligibleJobs env (kv w))"
        by (auto simp: jobsToProcess_take dest: in_set_takeD)
      with st have sb: "status b = InProgress" by (simp add: eligibleJobs_stale)
      from bE eligibleJobs_wf(3) [OF wf, of env] getJobs_wf(3) [OF wf]
      have gb: "kv_get (job_key (job_id b)) (kv w) = Some (VJob b)" by auto
      show "job_id b \<noteq> job_id q"
      proof
        assume "job_id b = job_id q"
        with gb have "kv_get (job_key (job_id q)) (kv w) = Some (VJob b)" by simp
        with g [unfolded k] have "b = q" by simp
        with sb h show False by simp
      qed
    qed
    note fr = pass_frame [OF wf ql ids]
    from GET_kv_cases [of env a c w]
    show "kv_get k (kv (snd (GET env a c w))) = Some (VJob q)
              \<and> kv_get (marker_key (groupId q) (job_id q)) (kv (snd (GET env a c w)))
                  = kv_get (marker_key (groupId q) (job_id q)) (kv w)"
    proof
      assume "snd (GET env a c w) = w"
      with g show ?thesis by simp
    next
      assume "snd (GET env a c w) = processJobs env (eligibleJobs env (kv w)) 50 w"
      with fr show ?thesis unfolding k by simp
    qed
  qed
next
  assume q: "\<exists>j \<in> set (jobsToProcess (eligibleJobs env (kv w)) 50). status j = Queued"
  show st: "staleInProgress env (kv w) = []"
  proof (rule ccontr)
    assume "staleInProgress env (kv w) \<noteq> []"
    then have "\<forall>j \<in> set (jobsToProcess (eligibleJobs env (kv w)) 50). status j = InProgress"
      using eligibleJobs_stale [of env "kv w"]
      by (auto simp: jobsToProcess_take dest: in_set_takeD)
    with q show False by auto
  qed
  show "\<not> (\<exists>k j. kv_get k (kv w) = Some (VJob j) \<and> prefix ''job:'' k
                       \<and> status j = InProgress \<and> Date_now env - updatedAt j > 60000 * 6)"
    using st stale_job_in_store by blast
qed

theorem stale_jobs_take_the_pass_witness:
  "wf_store (kv world2)
   \<and> kv_get ''job:j0'' (kv world2) = Some (VJob job0)
   \<and> status job0 = InProgress \<and> Date_now env_late - updatedAt job0 > 60000 * 6
   \<and> status job1 = Queued
   \<and> kv_get ''job:j1'' (kv (snd (GET env_late (Some ''Bearer s3cret'') (Some ''s3cret'') world2)))
       = Some (VJob job1)
   \<and> kv_get ''group:g1:j1''
        (kv (snd (GET env_late (Some ''Bearer s3cret'') (Some ''s3cret'') world2)))
       = Some (VStr ''queued'')
   \<and> jobsToProcess (eligibleJobs env_late (kv world2)) 50 = [job0]
   \<and> jobsToProcess (eligibleJobs env_dead (kv world1)) 50 = [job1]
   \<and> staleInProgress env_dead (kv world1) = []
   \<and> GET env_late (Some ''Bearer s3cret'') (Some ''s3cret'') world2
       = (200, processJob env_late job0 world2)"
proof -
  note T2 = stale_jobs_take_the_pass
    [of "Some ''Bearer s3cret''" "Some ''s3cret''" env_late world2]
  note T1 = stale_jobs_take_the_pass
    [of "Some ''Bearer s3cret''" "Some ''s3cret''" env_dead world1]
  have wf: "wf_store (kv world2)" by code_simp
  have g0: "kv_get ''job:j0'' (kv world2) = Some (VJob job0)" by code_simp
  have s0: "status job0 = InProgress \<and> Date_now env_late - updatedAt job0 > 60000 * 6"
    by code_simp
  have s1: "status job1 = Queued" by code_simp
  have m1: "(''job:j1'', VJob job1) \<in> set (kv world2)" by (simp add: world2_def)
  have mk: "marker_key (groupId job1) (job_id job1) = ''group:g1:j1''" by code_simp
  have gm: "kv_get ''group:g1:j1'' (kv world2) = Some (VStr ''queued'')" by code_simp
  have b2: "jobsToProcess (eligibleJobs env_late (kv world2)) 50 = [job0]" by code_simp
  have b1: "jobsToProcess (eligibleJobs env_dead (kv world1)) 50 = [job1]" by code_simp
  have ex: "\<exists>k j. kv_get k (kv world2) = Some (VJob j) \<and> prefix ''job:'' k
              \<and> status j = InProgress \<and> Date_now env_late - updatedAt j > 60000 * 6"
    using g0 s0 by (intro exI [of _ "''job:j0''"] exI [of _ job0]) simp
  from T2 ex wf have "\<forall>k q. (k, VJob q) \<in> set (kv world2) \<and> prefix ''job:'' k \<and> status q = Queued
     \<longrightarrow> kv_get k (kv (snd (GET env_late (Some ''Bearer s3cret'') (Some ''s3cret'') world2)))
           = Some (VJob q)
         \<and> kv_get (marker_key (groupId q) (job_id q))
             (kv (snd (GET env_late (Some ''Bearer s3cret'') (Some ''s3cret'') world2)))
           = kv_get (marker_key (groupId q) (job_id q)) (kv world2)"
    by blast
  from this [rule_format, of "''job:j1''" job1] m1 s1
  have q: "kv_get ''job:j1''
             (kv (snd (GET env_late (Some ''Bearer s3cret'') (Some ''s3cret'') world2)))
           = Some (VJob job1)
         \<and> kv_get ''group:g1:j1''
             (kv (snd (GET env_late (Some ''Bearer s3cret'') (Some ''s3cret'') world2)))
           = Some (VStr ''queued'')"
    by (simp add: mk gm)
  have "\<exists>j \<in> set (jobsToProcess (eligibleJobs env_dead (kv world1)) 50). status j = Queued"
    using s1 by (simp add: b1)
  with T1 have e1: "staleInProgress env_dead (kv world1) = []" by blast
  from T2 have "GET env_late (Some ''Bearer s3cret'') (Some ''s3cret'') world2
       = (200, processJob env_late job0 world2)"
    by (simp add: b2)
  with wf g0 s0 s1 q b2 b1 e1 show ?thesis by simp
qed

section \<open>The marker key space of a group\<close>

lemma group_prefix_is_group: "prefix (group_prefix g) k \<Longrightarrow> prefix ''group:'' k"
  by (auto simp: group_prefix_def prefix_def)

lemma handleJobFailure_eq:
  "handleJobFailure env j w =
     w\<lparr>kv := kv_set (marker_key (groupId j) (job_id j)) (VStr ''failed'')
              (kv_set (job_key (job_id j))
                 (VJob (j\<lparr>status := Failed, updatedAt := Date_now env\<rparr>)) (kv w))\<rparr>"
  by (simp add: handleJobFailure_def saveJobWithStatus_def Let_def)

lemma scan_group_processJob:
  assumes "marker_key (groupId j) (job_id j) \<in> set (map fst (kv w))"
  shows "scanIterator (group_prefix g) (kv (processJob env j w))
           = scanIterator (group_prefix g) (kv w)"
proof -
  have "marker_key (groupId j) (job_id j) \<in> set (map fst (kv_set (job_key (job_id j)) v2
           (kv_set (job_key (job_id j)) v1 (kv w))))" for v1 v2
    using assms by (simp only: keys_kv_set) simp
  then show ?thesis
    by (simp add: processJob_eq scanIterator_kv_set_present scanIterator_kv_set_other
        not_group_prefix_job_key)
qed

lemma scan_group_handleJobFailure:
  assumes "marker_key (groupId j) (job_id j) \<in> set (map fst (kv w))"
  shows "scanIterator (group_prefix g) (kv (handleJobFailure env j w))
           = scanIterator (group_prefix g) (kv w)"
proof -
  have "marker_key (groupId j) (job_id j) \<in> set (map fst (kv_set (job_key (job_id j)) v1 (kv w)))"
    for v1
    using assms by (simp only: keys_kv_set) simp
  then show ?thesis
    by (simp add: handleJobFailure_eq scanIterator_kv_set_present scanIterator_kv_set_other
        not_group_prefix_job_key)
qed

lemma finalizeGroup_throws:
  assumes "wf_store (kv w)"
  shows "isl (fst (finalizeGroup env g w)) \<and> snd (finalizeGroup env g w) = w"
proof (cases "getJobs (group_prefix g) (kv w)")
  case Nil
  then show ?thesis by (simp add: finalizeGroup_def)
next
  case (Cons j0 rest)
  then have "j0 \<in> set (getJobs (group_prefix g) (kv w))" by simp
  then obtain k where "prefix (group_prefix g) k" "(k, j0) \<in> set (kv w)"
    using getJobs_values by blast
  with assms have "prefix ''group:'' k" "wf_entry (map fst (kv w)) (k, j0)"
    by (auto simp: wf_store_def list_all_iff dest: group_prefix_is_group)
  then obtain m where "j0 = VStr m"
    by (cases j0) (auto simp: wf_entry_def)
  with Cons show ?thesis
    by (simp add: finalizeGroup_def getASTFilename_def)
qed

section \<open>Well-formedness is kept\<close>

lemma set_kv_set_subset: "set (kv_set k v s) \<subseteq> insert (k, v) (set s)"
  by (induction s) (auto simp: kv_set_def)

lemma wf_store_kv_set:
  assumes wf: "wf_store s" and k: "k \<in> set (map fst s)" and e: "wf_entry (map fst s) (k, v)"
  shows "wf_store (kv_set k v s)"
proof -
  have keys: "map fst (kv_set k v s) = map fst s"
    using k by (rule keys_kv_set_present)
  have "\<forall>x \<in> set (kv_set k v s). wf_entry (map fst s) x"
    using set_kv_set_subset [of k v s] wf e by (auto simp: wf_store_def list_all_iff)
  with wf show ?thesis
    by (simp only: wf_store_def list_all_iff keys)
qed

lemma wf_store_processJob:
  assumes wf: "wf_store (kv w)" and j: "j \<in> set (listed (kv w))"
  shows "wf_store (kv (processJob env j w))"
proof -
  from getJobs_wf(3) [OF wf] j
  have g: "kv_get (job_key (job_id j)) (kv w) = Some (VJob j)"
    and c: "CHR '':'' \<notin> set (groupId j)"
    and m: "marker_key (groupId j) (job_id j) \<in> set (map fst (kv w))" by auto
  from g have jk: "job_key (job_id j) \<in> set (map fst (kv w))"
    by (force dest: kv_get_mem)
  let ?v1 = "VJob (j\<lparr>status := InProgress, updatedAt := Date_now env\<rparr>)"
  let ?v2 = "VJob (j\<lparr>result := Some ''{}'', status := Completed, updatedAt := Date_now env\<rparr>)"
  let ?s1 = "kv_set (job_key (job_id j)) ?v1 (kv w)"
  let ?s2 = "kv_set (job_key (job_id j)) ?v2 ?s1"
  have k1: "map fst ?s1 = map fst (kv w)" using jk by (rule keys_kv_set_present)
  have k2: "map fst ?s2 = map fst (kv w)" using jk k1 by (simp add: keys_kv_set_present)
  have e1: "wf_entry (map fst (kv w)) (job_key (job_id j), ?v1)"
    using c m by (simp add: wf_entry_def job_key_def)
  have w1: "wf_store ?s1" by (rule wf_store_kv_set [OF wf jk e1])
  have e2: "wf_entry (map fst ?s1) (job_key (job_id j), ?v2)"
    unfolding k1 using c m by (simp add: wf_entry_def job_key_def)
  have jk1: "job_key (job_id j) \<in> set (map fst ?s1)" unfolding k1 by (rule jk)
  have w2: "wf_store ?s2" by (rule wf_store_kv_set [OF w1 jk1 e2])
  have e3: "wf_entry (map fst ?s2) (marker_key (groupId j) (job_id j), VStr ''completed'')"
    by (simp add: wf_entry_def marker_key_def group_prefix_def)
  have m2: "marker_key (groupId j) (job_id j) \<in> set (map fst ?s2)" unfolding k2 by (rule m)
  have "wf_store (kv_set (marker_key (groupId j) (job_id j)) (VStr ''completed'') ?s2)"
    by (rule wf_store_kv_set [OF w2 m2 e3])
  then show ?thesis by (simp add: processJob_eq)
qed

section \<open>Stores built by enqueuing\<close>

lemma prefix_job_job_key [simp]: "prefix ''job:'' (job_key i)"
  by (simp add: job_key_def)

lemma prefix_job_marker_key [simp]: "\<not> prefix ''job:'' (marker_key g i)"
  by (simp add: marker_key_def group_prefix_def)

lemma prefix_group_job_key [simp]: "\<not> prefix ''group:'' (job_key i)"
  by (simp add: job_key_def)

lemma enqueued_Cons:
  "enqueued (j # js)
     = (job_key (job_id j), VJob j) # (marker_key (groupId j) (job_id j), VStr ''queued'')
         # enqueued js"
  by (simp add: enqueued_def)

lemma enqueued_Nil: "enqueued [] = []"
  by (simp add: enqueued_def)

lemma keys_enqueued:
  "set (map fst (enqueued js))
     = (\<lambda>j. job_key (job_id j)) ` set js \<union> (\<lambda>j. marker_key (groupId j) (job_id j)) ` set js"
  by (induction js) (auto simp: enqueued_Cons enqueued_Nil)

lemma distinct_keys_enqueued:
  assumes "distinct (map job_id js)" and "\<forall>j \<in> set js. CHR '':'' \<notin> set (groupId j)"
  shows "distinct (map fst (enqueued js))"
  using assms
proof (induction js)
  case Nil
  then show ?case by (simp add: enqueued_Nil)
next
  case (Cons j js)
  have a: "job_key (job_id j) \<notin> set (map fst (enqueued js))"
  proof
    assume "job_key (job_id j) \<in> set (map fst (enqueued js))"
    then consider a where "a \<in> set js" "job_key (job_id j) = job_key (job_id a)"
      | a where "a \<in> set js" "job_key (job_id j) = marker_key (groupId a) (job_id a)"
      unfolding keys_enqueued by blast
    then show False
    proof cases
      case 1
      then have "job_id j = job_id a" by (simp add: job_key_inj)
      with 1(1) Cons.prems(1) show False by force
    next
      case 2
      then show False by (simp add: job_key_neq_marker_key)
    qed
  qed
  have b: "marker_key (groupId j) (job_id j) \<notin> set (map fst (enqueued js))"
  proof
    assume "marker_key (groupId j) (job_id j) \<in> set (map fst (enqueued js))"
    then consider a where "a \<in> set js" "marker_key (groupId j) (job_id j) = job_key (job_id a)"
      | a where "a \<in> set js"
          "marker_key (groupId j) (job_id j) = marker_key (groupId a) (job_id a)"
      unfolding keys_enqueued by blast
    then show False
    proof cases
      case 1
      then show False using job_key_neq_marker_key [of "job_id a" "groupId j" "job_id j"] by simp
    next
      case 2
      with Cons.prems(2) have "job_id j = job_id a"
        using marker_key_inj [of "groupId j" "groupId a" "job_id j" "job_id a"] by simp
      with 2(1) Cons.prems(1) show False by force
    qed
  qed
  have c: "job_key (job_id j) \<noteq> marker_key (groupId j) (job_id j)"
    by (rule job_key_neq_marker_key)
  from Cons have "distinct (map fst (enqueued js))" by simp
  with a b c show ?case by (simp add: enqueued_Cons)
qed

lemma set_enqueued:
  "set (enqueued js)
     = (\<lambda>j. (job_key (job_id j), VJob j)) ` set js
       \<union> (\<lambda>j. (marker_key (groupId j) (job_id j), VStr ''queued'')) ` set js"
  by (induction js) (auto simp: enqueued_Cons enqueued_Nil)

lemma wf_store_enqueued:
  assumes "distinct (map job_id js)" and "\<forall>j \<in> set js. CHR '':'' \<notin> set (groupId j)"
  shows "wf_store (enqueued js)"
proof -
  have "wf_entry (map fst (enqueued js)) e" if "e \<in> set (enqueued js)" for e
  proof -
    from that consider j where "j \<in> set js" "e = (job_key (job_id j), VJob j)"
      | j where "j \<in> set js" "e = (marker_key (groupId j) (job_id j), VStr ''queued'')"
      unfolding set_enqueued by blast
    then show ?thesis
    proof cases
      case 1
      then have "marker_key (groupId j) (job_id j) \<in> set (map fst (enqueued js))"
        unfolding keys_enqueued by blast
      with 1 assms(2) show ?thesis by (simp add: wf_entry_def)
    next
      case 2
      then show ?thesis by (simp add: wf_entry_def)
    qed
  qed
  with distinct_keys_enqueued [OF assms] show ?thesis
    by (simp add: wf_store_def list_all_iff)
qed

lemma scan_jobs_enqueued:
  "scanIterator ''job:'' (enqueued js) = map (\<lambda>j. job_key (job_id j)) js"
  by (induction js) (simp_all add: enqueued_Cons enqueued_Nil scanIterator_def)

lemma listed_enqueued:
  assumes "distinct (map job_id js)" and "\<forall>j \<in> set js. CHR '':'' \<notin> set (groupId j)"
  shows "listed (enqueued js) = js"
proof -
  have d: "distinct (map fst (enqueued js))" by (rule distinct_keys_enqueued [OF assms])
  have "kv_get (job_key (job_id j)) (enqueued js) = Some (VJob j)" if "j \<in> set js" for j
    using that by (intro kv_get_distinct [OF d]) (auto simp: set_enqueued)
  then have "map (\<lambda>key. case kv_get key (enqueued js) of None \<Rightarrow> VEmpty | Some v \<Rightarrow> v)
               (map (\<lambda>j. job_key (job_id j)) js) = map VJob js"
    by simp
  then show ?thesis
    unfolding listed_def scan_jobs_enqueued by (simp only: as_jobs_map_VJob)
qed

lemma eligibleJobs_all_queued:
  assumes wf: "wf_store s" and q: "\<forall>j \<in> set (listed s). status j = Queued"
  shows "eligibleJobs env s = sort_key updatedAt (listed s)"
proof -
  have J: "as_jobs (getJobs ''job:'' s) = sort_key updatedAt (listed s)"
    by (simp add: getJobs_wf(1) [OF wf])
  have "as_jobs (staleInProgress env s) = []"
    unfolding as_jobs_staleInProgress J using q by (simp add: filter_empty_conv)
  then have "staleInProgress env s = []" by (simp add: staleInProgress_Nil)
  then show ?thesis
    using q by (simp add: eligibleJobs_def as_jobs_queued J filter_id_conv)
qed

section \<open>The store of 51 queued jobs\<close>

lemma many_jobs_ok:
  "distinct (map job_id (map many_job [0..<n]))
   \<and> (\<forall>j \<in> set (map many_job [0..<n]). CHR '':'' \<notin> set (groupId j) \<and> status j = Queued)"
  by (simp add: distinct_map inj_on_def many_job_def job1_def comp_def)

lemma wf_world51: "wf_store (kv world51)"
  using many_jobs_ok [of 51] by (simp add: world51_def wf_store_enqueued)

lemma eligible_world51:
  "eligibleJobs env (kv world51) = sort_key updatedAt (map many_job [0..<51])"
proof -
  have l: "listed (kv world51) = map many_job [0..<51]"
    using many_jobs_ok [of 51] by (simp add: world51_def listed_enqueued)
  show ?thesis
    using many_jobs_ok [of 51] eligibleJobs_all_queued [OF wf_world51, of env]
    unfolding l by simp
qed

lemma length_eligible_world51: "length (eligibleJobs env (kv world51)) = 51"
  by (simp add: eligible_world51)

section \<open>The Enqueuer leaves the store well-formed\<close>

lemma wf_store_Nil: "wf_store []"
  by (simp add: wf_store_def)

lemma wf_entry_mono: "wf_entry ks e \<Longrightarrow> set ks \<subseteq> set ks' \<Longrightarrow> wf_entry ks' e"
  by (cases "snd e") (auto simp: wf_entry_def)

lemma wf_store_kv_set_any:
  assumes wf: "wf_store s" and e: "wf_entry (k # map fst s) (k, v)"
  shows "wf_store (kv_set k v s)"
proof -
  have sub: "set (map fst s) \<subseteq> set (map fst (kv_set k v s))"
    by (simp only: keys_kv_set) auto
  have sub': "set (k # map fst s) \<subseteq> set (map fst (kv_set k v s))"
    by (simp only: keys_kv_set) auto
  have "wf_entry (map fst (kv_set k v s)) x" if "x \<in> set (kv_set k v s)" for x
  proof -
    from that set_kv_set_subset [of k v s] have "x = (k, v) \<or> x \<in> set s" by auto
    then show ?thesis
    proof
      assume "x = (k, v)"
      with wf_entry_mono [OF e sub'] show ?thesis by simp
    next
      assume "x \<in> set s"
      with wf have "wf_entry (map fst s) x" by (simp add: wf_store_def list_all_iff)
      from this sub show ?thesis by (rule wf_entry_mono)
    qed
  qed
  with wf show ?thesis
    by (simp add: wf_store_def list_all_iff distinct_kv_set)
qed

lemma wf_store_queueJob:
  assumes wf: "wf_store s" and c: "CHR '':'' \<notin> set (groupId j)"
  shows "wf_store (queueJob j s)"
proof -
  let ?jk = "job_key (job_id j)" and ?mk = "marker_key (groupId j) (job_id j)"
  let ?s1 = "kv_set ?jk (VJob j) s"
  let ?s2 = "kv_set ?mk (VStr ''queued'') ?s1"
  have d: "distinct (map fst ?s2)"
    using wf by (simp add: wf_store_def distinct_kv_set)
  have keys: "set (map fst ?s2) = insert ?mk (insert ?jk (set (map fst s)))"
    by (simp only: keys_kv_set)
  have "wf_entry (map fst ?s2) x" if "x \<in> set ?s2" for x
  proof -
    from that set_kv_set_subset [of ?mk "VStr ''queued''" ?s1] set_kv_set_subset [of ?jk "VJob j" s]
    consider "x = (?mk, VStr ''queued'')" | "x = (?jk, VJob j)" | "x \<in> set s" by blast
    then show ?thesis
    proof cases
      case 1
      then show ?thesis by (simp add: wf_entry_def)
    next
      case 2
      have "?mk \<in> set (map fst ?s2)" unfolding keys by simp
      with 2 c show ?thesis by (simp add: wf_entry_def del: set_map)
    next
      case 3
      with wf have "wf_entry (map fst s) x" by (simp add: wf_store_def list_all_iff)
      moreover have "set (map fst s) \<subseteq> set (map fst ?s2)" unfolding keys by auto
      ultimately show ?thesis by (rule wf_entry_mono)
    qed
  qed
  with d show ?thesis
    by (simp add: wf_store_def list_all_iff queueJob_def)
qed

lemma metadata_key_not_reserved:
  assumes "CHR '':'' \<notin> set ow"
  shows "\<not> prefix ''job:'' (metadata_key (ow @ ''/'' @ rp) p)"
    and "\<not> prefix ''group:'' (metadata_key (ow @ ''/'' @ rp) p)"
proof -
  let ?k = "metadata_key (ow @ ''/'' @ rp) p"
  have tw: "takeWhile (\<lambda>c. c \<noteq> CHR '':'') ?k
              = ow @ CHR ''/'' # takeWhile (\<lambda>c. c \<noteq> CHR '':'') (rp @ '':'' @ p @ '':metadata'')"
  proof -
    have "takeWhile (\<lambda>c. c \<noteq> CHR '':'') (ow @ (CHR ''/'' # rp @ '':'' @ p @ '':metadata''))
            = ow @ takeWhile (\<lambda>c. c \<noteq> CHR '':'') (CHR ''/'' # rp @ '':'' @ p @ '':metadata'')"
      using assms by (intro takeWhile_append2) auto
    then show ?thesis by (simp add: metadata_key_def)
  qed
  show "\<not> prefix ''job:'' ?k"
  proof
    assume "prefix ''job:'' ?k"
    then obtain x where "?k = ''job:'' @ x" by (auto simp: prefix_def)
    then have "takeWhile (\<lambda>c. c \<noteq> CHR '':'') ?k = ''job''" by simp
    with tw have "CHR ''/'' \<in> set ''job''"
      by (metis in_set_conv_decomp)
    then show False by simp
  qed
  show "\<not> prefix ''group:'' ?k"
  proof
    assume "prefix ''group:'' ?k"
    then obtain x where "?k = ''group:'' @ x" by (auto simp: prefix_def)
    then have "takeWhile (\<lambda>c. c \<noteq> CHR '':'') ?k = ''group''" by simp
    with tw have "CHR ''/'' \<in> set ''group''"
      by (metis in_set_conv_decomp)
    then show False by simp
  qed
qed

lemma wf_store_store_metadata:
  assumes "wf_store s" and "CHR '':'' \<notin> set ow"
  shows "wf_store (kv_set (metadata_key (ow @ ''/'' @ rp) p) v s)"
proof -
  note r = metadata_key_not_reserved [OF assms(2), of rp p]
  have "wf_entry (metadata_key (ow @ ''/'' @ rp) p # map fst s)
          (metadata_key (ow @ ''/'' @ rp) p, v)"
    by (simp only: wf_entry_def fst_conv r simp_thms)
  with assms(1) show ?thesis by (rule wf_store_kv_set_any)
qed

lemma wf_store_queue_files:
  assumes "wf_store s" and "CHR '':'' \<notin> set g" and "CHR '':'' \<notin> set ow"
  shows "wf_store (snd (queue_files q ow rp g files n jobs s))"
  using assms(1)
proof (induction files arbitrary: n jobs s)
  case Nil
  then show ?case by simp
next
  case (Cons f files)
  let ?j = "\<lparr>job_id = uuidv4 q n, job_file = f, groupId = g, status = Queued,
             owner = ow, repo = rp, createdAt = q_now q, updatedAt = q_now q,
             result = None\<rparr>"
  have wq: "wf_store (queueJob ?j s)"
    using Cons.prems assms(2) by (intro wf_store_queueJob) simp_all
  have w1: "wf_store (kv_set (metadata_key (ow @ ''/'' @ rp) (path f)) v (queueJob ?j s))" for v
    using wq assms(3) by (rule wf_store_store_metadata)
  show ?case
    using Cons.prems Cons.IH w1
    by (auto simp: Let_def storeFileMetadata_def split: sum.splits bool.splits list.splits)
qed

lemma wf_store_queueGroupedJobs:
  assumes "wf_store s" and "CHR '':'' \<notin> set (uuidv4 q 0)" and "CHR '':'' \<notin> set ow"
  shows "wf_store (snd (queueGroupedJobs q ow rp s))"
proof (cases "contents q")
  case None
  with assms(1) show ?thesis by (simp add: queueGroupedJobs_def)
next
  case (Some items)
  show ?thesis
  proof (cases "fetchFiles items")
    case (Inl e)
    with Some assms(1) show ?thesis by (simp add: queueGroupedJobs_def)
  next
    case (Inr allFiles)
    let ?r = "queue_files q ow rp (uuidv4 q 0)
                (filter (\<lambda>fileInfo. getFileType (path fileInfo) \<noteq> ''Media'') allFiles) 1 [] s"
    have w: "wf_store (snd ?r)" using assms by (rule wf_store_queue_files)
    obtain r s' where r: "?r = (r, s')" by (cases ?r)
    with w have "wf_store s'" by simp
    with Some Inr r show ?thesis
      by (cases r) (simp_all add: queueGroupedJobs_def)
  qed
qed

section \<open>Scheduling passes\<close>

lemma fold_processJob_wf:
  assumes "wf_store (kv w)" and "distinct (map job_id js)" and "set js \<subseteq> set (listed (kv w))"
  shows "wf_store (kv (foldl (\<lambda>w' j. processJob env j w') w js))"
  using assms
proof (induction js arbitrary: w)
  case Nil
  then show ?case by simp
next
  case (Cons j js)
  from Cons.prems have j: "j \<in> set (listed (kv w))" by simp
  note wf1 = wf_store_processJob [OF Cons.prems(1) j, of env]
  have "set js \<subseteq> set (listed (kv (processJob env j w)))"
  proof
    fix b assume b: "b \<in> set js"
    with Cons.prems have bl: "b \<in> set (listed (kv w))" by auto
    have "job_id j \<notin> job_id ` set js" using Cons.prems(2) by simp
    moreover have "job_id b \<in> job_id ` set js" using b by (rule imageI)
    ultimately have ne: "job_id b \<noteq> job_id j" by metis
    from getJobs_wf(3) [OF Cons.prems(1)] bl
    have "kv_get (job_key (job_id b)) (kv w) = Some (VJob b)" by auto
    with ne have "kv_get (job_key (job_id b)) (kv (processJob env j w)) = Some (VJob b)"
      by (simp add: processJob_kv_get_other job_key_inj job_key_neq_marker_key)
    then have "(job_key (job_id b), VJob b) \<in> set (kv (processJob env j w))"
      by (rule kv_get_mem)
    then show "b \<in> set (listed (kv (processJob env j w)))"
      by (rule listed_member [OF wf1]) simp
  qed
  with Cons.prems wf1 have "wf_store (kv (foldl (\<lambda>w' j. processJob env j w') (processJob env j w) js))"
    by (intro Cons.IH) simp_all
  then show ?case by simp
qed

lemma pass_wf:
  assumes wf: "wf_store (kv w)"
  shows "wf_store (kv (snd (GET env a c w)))"
proof -
  note E = eligibleJobs_wf [OF wf, of env]
  have "distinct (map job_id (take 50 (eligibleJobs env (kv w))))"
    using E(2) by (simp add: take_map [symmetric])
  moreover have "set (take 50 (eligibleJobs env (kv w))) \<subseteq> set (listed (kv w))"
    using E(3) by (auto dest: in_set_takeD)
  ultimately have "wf_store (kv (processJobs env (eligibleJobs env (kv w)) 50 w))"
    unfolding processJobs_def jobsToProcess_take by (rule fold_processJob_wf [OF wf])
  with wf GET_kv_cases [of env a c w] show ?thesis by auto
qed

text \<open>
  C5. In a well-formed store, processing a job of the store, recording its failure, and
  a scheduling pass leave the keys under \<^verbatim>\<open>group:<groupId>:\<close> exactly as they were, for
  every group; \<^verbatim>\<open>finalizeGroup\<close> throws before it writes anything; and the pass leaves the
  store well-formed, so the same holds for every later pass.
\<close>

theorem marker_key_space_is_fixed:
  assumes "wf_store (kv w)" and "(k, VJob j) \<in> set (kv w)" and "prefix ''job:'' k"
  shows "scanIterator (group_prefix g) (kv (processJob env j w))
           = scanIterator (group_prefix g) (kv w)
         \<and> scanIterator (group_prefix g) (kv (handleJobFailure env j w))
           = scanIterator (group_prefix g) (kv w)
         \<and> isl (fst (finalizeGroup env g w)) \<and> snd (finalizeGroup env g w) = w
         \<and> scanIterator (group_prefix g) (kv (snd (GET env a c w)))
           = scanIterator (group_prefix g) (kv w)
         \<and> wf_store (kv (snd (GET env a c w)))"
proof -
  from assms have "j \<in> set (listed (kv w))" by (intro listed_member)
  with getJobs_wf(3) [OF assms(1)]
  have m: "marker_key (groupId j) (job_id j) \<in> set (map fst (kv w))" by auto
  have "map fst (kv (snd (GET env a c w))) = map fst (kv w)"
    using GET_kv_cases [of env a c w] pass_keys_unchanged [OF assms(1), of env] by auto
  then have "scanIterator (group_prefix g) (kv (snd (GET env a c w)))
           = scanIterator (group_prefix g) (kv w)"
    by (simp add: scanIterator_def)
  with scan_group_processJob [OF m] scan_group_handleJobFailure [OF m]
    finalizeGroup_throws [OF assms(1)] pass_wf [OF assms(1)]
  show ?thesis by simp
qed

theorem marker_key_space_is_fixed_witness:
  "wf_store (kv world1) \<and> (''job:j1'', VJob job1) \<in> set (kv world1)
   \<and> scanIterator (group_prefix ''g1'') (kv world1) = [''group:g1:j1'']
   \<and> scanIterator (group_prefix ''g1'') (kv (processJob env_dead job1 world1)) = [''group:g1:j1'']
   \<and> scanIterator (group_prefix ''g1'') (kv (handleJobFailure env_dead job1 world1))
       = [''group:g1:j1'']
   \<and> isl (fst (finalizeGroup env_dead ''g1'' world1))
   \<and> snd (finalizeGroup env_dead ''g1'' world1) = world1
   \<and> scanIterator (group_prefix ''g1'')
        (kv (snd (GET env_dead (Some ''Bearer s3cret'') (Some ''s3cret'') world1)))
       = [''group:g1:j1'']"
proof -
  have wf: "wf_store (kv world1)" by code_simp
  have m: "(''job:j1'', VJob job1) \<in> set (kv world1)" by code_simp
  have p: "prefix ''job:'' ''job:j1''" by simp
  have s: "scanIterator (group_prefix ''g1'') (kv world1) = [''group:g1:j1'']" by code_simp
  from marker_key_space_is_fixed [OF wf m p, of "''g1''" env_dead
      "Some ''Bearer s3cret''" "Some ''s3cret''"] wf m s
  show ?thesis by simp
qed

text \<open>
  C8. A pass runs \<^verbatim>\<open>processJob\<close> on at most 50 jobs: the first 50 of its batch. In a
  well-formed store, the record and the marker of every job of the batch beyond the first
  50 are after the pass what they were before it.
\<close>

theorem pass_runs_at_most_fifty:
  "length (jobsToProcess (eligibleJobs env (kv w)) 50) \<le> 50
   \<and> jobsToProcess (eligibleJobs env (kv w)) 50 = take 50 (eligibleJobs env (kv w))
   \<and> (a = Some (''Bearer '' @ (case c of None \<Rightarrow> ''undefined'' | Some x \<Rightarrow> x))
        \<longrightarrow> GET env a c w
              = (200, foldl (\<lambda>w' j. processJob env j w') w
                        (jobsToProcess (eligibleJobs env (kv w)) 50)))
   \<and> (a \<noteq> Some (''Bearer '' @ (case c of None \<Rightarrow> ''undefined'' | Some x \<Rightarrow> x))
        \<longrightarrow> GET env a c w = (401, w))
   \<and> (wf_store (kv w)
        \<longrightarrow> (\<forall>j \<in> set (drop 50 (eligibleJobs env (kv w))).
               kv_get (job_key (job_id j)) (kv w) = Some (VJob j)
               \<and> kv_get (job_key (job_id j)) (kv (snd (GET env a c w))) = Some (VJob j)
               \<and> kv_get (marker_key (groupId j) (job_id j)) (kv (snd (GET env a c w)))
                   = kv_get (marker_key (groupId j) (job_id j)) (kv w)))"
proof (intro conjI impI ballI)
  show "length (jobsToProcess (eligibleJobs env (kv w)) 50) \<le> 50"
    by (simp add: jobsToProcess_take)
  show "jobsToProcess (eligibleJobs env (kv w)) 50 = take 50 (eligibleJobs env (kv w))"
    by (rule jobsToProcess_take)
next
  assume "a = Some (''Bearer '' @ (case c of None \<Rightarrow> ''undefined'' | Some x \<Rightarrow> x))"
  then show "GET env a c w
      = (200, foldl (\<lambda>w' j. processJob env j w') w (jobsToProcess (eligibleJobs env (kv w)) 50))"
    by (simp add: GET_authorized processJobs_def)
next
  assume "a \<noteq> Some (''Bearer '' @ (case c of None \<Rightarrow> ''undefined'' | Some x \<Rightarrow> x))"
  then show "GET env a c w = (401, w)" by (rule GET_unauthorized)
next
  fix j
  assume wf: "wf_store (kv w)" and j: "j \<in> set (drop 50 (eligibleJobs env (kv w)))"
  note E = eligibleJobs_wf [OF wf, of env]
  from j have jl: "j \<in> set (listed (kv w))" using E(3) by (auto dest: in_set_dropD)
  with getJobs_wf(3) [OF wf] show g: "kv_get (job_key (job_id j)) (kv w) = Some (VJob j)"
    by auto
  have ids: "\<forall>b \<in> set (jobsToProcess (eligibleJobs env (kv w)) 50). job_id b \<noteq> job_id j"
    unfolding jobsToProcess_take using take_drop_ids_disjoint [OF E(2) _ j] by blast
  note fr = pass_frame [OF wf jl ids]
  from GET_kv_cases [of env a c w]
  have "kv_get (job_key (job_id j)) (kv (snd (GET env a c w))) = Some (VJob j)
        \<and> kv_get (marker_key (groupId j) (job_id j)) (kv (snd (GET env a c w)))
            = kv_get (marker_key (groupId j) (job_id j)) (kv w)"
  proof
    assume "snd (GET env a c w) = w"
    with g show ?thesis by simp
  next
    assume "snd (GET env a c w) = processJobs env (eligibleJobs env (kv w)) 50 w"
    with fr show ?thesis by simp
  qed
  then show "kv_get (job_key (job_id j)) (kv (snd (GET env a c w))) = Some (VJob j)"
    and "kv_get (marker_key (groupId j) (job_id j)) (kv (snd (GET env a c w)))
            = kv_get (marker_key (groupId j) (job_id j)) (kv w)"
    by simp_all
qed

theorem pass_runs_at_most_fifty_witness:
  "wf_store (kv world51) \<and> length (eligibleJobs env_dead (kv world51)) = 51
   \<and> length (jobsToProcess (eligibleJobs env_dead (kv world51)) 50) \<le> 50
   \<and> (\<exists>j. j \<in> set (drop 50 (eligibleJobs env_dead (kv world51)))
          \<and> kv_get (job_key (job_id j))
               (kv (snd (GET env_dead (Some ''Bearer s3cret'') (Some ''s3cret'') world51)))
              = Some (VJob j)
          \<and> kv_get (marker_key (groupId j) (job_id j))
               (kv (snd (GET env_dead (Some ''Bearer s3cret'') (Some ''s3cret'') world51)))
              = kv_get (marker_key (groupId j) (job_id j)) (kv world51))
   \<and> fst (GET env_dead (Some ''Bearer s3cret'') (Some ''s3cret'') world51) = 200
   \<and> GET env_dead (Some ''Bearer wrong'') (Some ''s3cret'') world51 = (401, world51)"
proof -
  note T = pass_runs_at_most_fifty [of env_dead world51 "Some ''Bearer s3cret''" "Some ''s3cret''"]
  note U = pass_runs_at_most_fifty [of env_dead world51 "Some ''Bearer wrong''" "Some ''s3cret''"]
  have len: "length (eligibleJobs env_dead (kv world51)) = 51"
    by (rule length_eligible_world51)
  then have "drop 50 (eligibleJobs env_dead (kv world51)) \<noteq> []" by simp
  then obtain j where j: "j \<in> set (drop 50 (eligibleJobs env_dead (kv world51)))"
    by (cases "drop 50 (eligibleJobs env_dead (kv world51))") auto
  from T wf_world51 j
  have "kv_get (job_key (job_id j))
               (kv (snd (GET env_dead (Some ''Bearer s3cret'') (Some ''s3cret'') world51)))
              = Some (VJob j)
          \<and> kv_get (marker_key (groupId j) (job_id j))
               (kv (snd (GET env_dead (Some ''Bearer s3cret'') (Some ''s3cret'') world51)))
              = kv_get (marker_key (groupId j) (job_id j)) (kv world51)"
    by blast
  with j have ex: "\<exists>j. j \<in> set (drop 50 (eligibleJobs env_dead (kv world51)))
          \<and> kv_get (job_key (job_id j))
               (kv (snd (GET env_dead (Some ''Bearer s3cret'') (Some ''s3cret'') world51)))
              = Some (VJob j)
          \<and> kv_get (marker_key (groupId j) (job_id j))
               (kv (snd (GET env_dead (Some ''Bearer s3cret'') (Some ''s3cret'') world51)))
              = kv_get (marker_key (groupId j) (job_id j)) (kv world51)"
    by blast
  from T have "length (jobsToProcess (eligibleJobs env_dead (kv world51)) 50) \<le> 50" by blast
  moreover from T have "fst (GET env_dead (Some ''Bearer s3cret'') (Some ''s3cret'') world51) = 200"
    by simp
  moreover from U have "GET env_dead (Some ''Bearer wrong'') (Some ''s3cret'') world51
                          = (401, world51)" by simp
  ultimately show ?thesis using wf_world51 len ex by blast
qed

text \<open>
  C9. In a well-formed store whose batch has more than 50 jobs, the pass runs the first
  50 jobs of the batch, the batch is in ascending order of \<open>updatedAt\<close>, and no job left
  out is older than a job that runs: the pass runs 50 jobs with the smallest
  \<open>updatedAt\<close> values of the batch.
\<close>

theorem pass_runs_the_oldest_fifty:
  assumes "wf_store (kv w)" and "length (eligibleJobs env (kv w)) > 50"
  shows "length (jobsToProcess (eligibleJobs env (kv w)) 50) = 50
         \<and> eligibleJobs env (kv w)
             = jobsToProcess (eligibleJobs env (kv w)) 50 @ drop 50 (eligibleJobs env (kv w))
         \<and> sorted (map updatedAt (eligibleJobs env (kv w)))
         \<and> distinct (map job_id (eligibleJobs env (kv w)))
         \<and> (\<forall>x \<in> set (jobsToProcess (eligibleJobs env (kv w)) 50).
              \<forall>y \<in> set (drop 50 (eligibleJobs env (kv w))). updatedAt x \<le> updatedAt y)
         \<and> (a = Some (''Bearer '' @ (case c of None \<Rightarrow> ''undefined'' | Some x \<Rightarrow> x))
              \<longrightarrow> GET env a c w
                    = (200, foldl (\<lambda>w' j. processJob env j w') w
                              (jobsToProcess (eligibleJobs env (kv w)) 50)))"
proof -
  let ?E = "eligibleJobs env (kv w)"
  note E = eligibleJobs_wf [OF assms(1), of env]
  have "sorted (map updatedAt (take 50 ?E) @ map updatedAt (drop 50 ?E))"
    using E(1) by (simp add: take_map [symmetric] drop_map [symmetric])
  then have "\<forall>x \<in> set (take 50 ?E). \<forall>y \<in> set (drop 50 ?E). updatedAt x \<le> updatedAt y"
    by (simp add: sorted_append)
  with assms(2) E show ?thesis
    by (simp add: jobsToProcess_take GET_authorized processJobs_def)
qed

theorem pass_runs_the_oldest_fifty_witness:
  "wf_store (kv world51) \<and> length (eligibleJobs env_dead (kv world51)) > 50
   \<and> length (jobsToProcess (eligibleJobs env_dead (kv world51)) 50) = 50
   \<and> sorted (map updatedAt (eligibleJobs env_dead (kv world51)))
   \<and> (\<exists>x y. x \<in> set (jobsToProcess (eligibleJobs env_dead (kv world51)) 50)
            \<and> y \<in> set (drop 50 (eligibleJobs env_dead (kv world51)))
            \<and> updatedAt x \<le> updatedAt y)
   \<and> fst (GET env_dead (Some ''Bearer s3cret'') (Some ''s3cret'') world51) = 200"
proof -
  let ?E = "eligibleJobs env_dead (kv world51)"
  have len: "length ?E > 50"
    by (simp add: length_eligible_world51)
  note T = pass_runs_the_oldest_fifty [OF wf_world51 len,
      of "Some ''Bearer s3cret''" "Some ''s3cret''"]
  from len have "drop 50 ?E \<noteq> []" by simp
  then obtain y where y: "y \<in> set (drop 50 ?E)"
    by (cases "drop 50 ?E") auto
  from T have "length (jobsToProcess ?E 50) = 50" by blast
  then have "jobsToProcess ?E 50 \<noteq> []" by auto
  then obtain x where x: "x \<in> set (jobsToProcess ?E 50)"
    by (cases "jobsToProcess ?E 50") auto
  from T x y have "updatedAt x \<le> updatedAt y" by blast
  with x y have ex: "\<exists>x y. x \<in> set (jobsToProcess ?E 50) \<and> y \<in> set (drop 50 ?E)
                        \<and> updatedAt x \<le> updatedAt y" by blast
  from T wf_world51 len ex show ?thesis by simp
qed

section \<open>Where the code departs from the specification\<close>

lemma kv_world1: "kv world1 = [(''job:j1'', VJob job1), (''group:g1:j1'', VStr ''queued'')]"
  by code_simp

lemma processJob_world1:
  "processJob env_dead job1 world1
     = \<lparr>kv = [(''job:j1'',
               VJob (job1\<lparr>result := Some ''{}'', status := Completed, updatedAt := 2000\<rparr>)),
              (''group:g1:j1'', VStr ''completed'')],
        written = [], uploaded = []\<rparr>"
  by (simp add: processJob_eq world1_def queueJob_def kv_set_def job_key_def marker_key_def
      group_prefix_def job1_def env_dead_def)

text \<open>
  C1. The group \<^verbatim>\<open>g1\<close> has one job. After \<^verbatim>\<open>processJob\<close> on it, the only membership
  marker of the group reads \<^verbatim>\<open>completed\<close>; yet \<^verbatim>\<open>checkGroupCompletion\<close> is false, no
  artifact was written or uploaded, and \<^verbatim>\<open>finalizeGroup\<close> called on that store throws
  and leaves it as it is. For every job and every store, \<^verbatim>\<open>processJob\<close> writes and
  uploads no artifact.
\<close>

theorem completed_group_is_not_finalized:
  "map (\<lambda>key. kv_get key (kv (processJob env_dead job1 world1)))
      (scanIterator (group_prefix ''g1'') (kv (processJob env_dead job1 world1)))
     = [Some (VStr ''completed'')]
   \<and> getJobs (group_prefix ''g1'') (kv (processJob env_dead job1 world1)) = [VStr ''completed'']
   \<and> checkGroupCompletion ''g1'' (kv (processJob env_dead job1 world1)) = False
   \<and> written (processJob env_dead job1 world1) = []
   \<and> uploaded (processJob env_dead job1 world1) = []
   \<and> finalizeGroup env_dead ''g1'' (processJob env_dead job1 world1)
     = (Inl (TypeError ''Cannot read properties of undefined (reading replaceAll)''),
        processJob env_dead job1 world1)
   \<and> written (processJob env j w) = written w
   \<and> uploaded (processJob env j w) = uploaded w"
proof -
  have "map (\<lambda>key. kv_get key (kv (processJob env_dead job1 world1)))
      (scanIterator (group_prefix ''g1'') (kv (processJob env_dead job1 world1)))
     = [Some (VStr ''completed'')]
   \<and> getJobs (group_prefix ''g1'') (kv (processJob env_dead job1 world1)) = [VStr ''completed'']
   \<and> checkGroupCompletion ''g1'' (kv (processJob env_dead job1 world1)) = False
   \<and> written (processJob env_dead job1 world1) = []
   \<and> uploaded (processJob env_dead job1 world1) = []
   \<and> finalizeGroup env_dead ''g1'' (processJob env_dead job1 world1)
     = (Inl (TypeError ''Cannot read properties of undefined (reading replaceAll)''),
        processJob env_dead job1 world1)"
    unfolding processJob_world1 by code_simp
  with processJob_artifacts [of env j w] show ?thesis by simp
qed

text \<open>
  C7. The network always answers 404, so the generation of the job's file throws after
  five attempts. \<^verbatim>\<open>processJob\<close> nevertheless stores the job as \<^verbatim>\<open>completed\<close>, with the
  result \<^verbatim>\<open>{}\<close>, and sets its marker to \<^verbatim>\<open>completed\<close>. It does so for every job,
  every store and every behaviour of the collaborators.
\<close>

theorem failed_generation_is_stored_as_completed:
  "fileInfoToAstData env_dead (job_file job1)
     = Inl (Error ''Failed to fetch file after 5 attempts: https://raw.example/a.js'')
   \<and> kv_get ''job:j1'' (kv (processJob env_dead job1 world1))
     = Some (VJob (job1\<lparr>result := Some ''{}'', status := Completed, updatedAt := 2000\<rparr>))
   \<and> kv_get ''group:g1:j1'' (kv (processJob env_dead job1 world1)) = Some (VStr ''completed'')
   \<and> kv_get (job_key (job_id j)) (kv (processJob env j w))
     = Some (VJob (j\<lparr>result := Some ''{}'', status := Completed, updatedAt := Date_now env\<rparr>))
   \<and> kv_get (marker_key (groupId j) (job_id j)) (kv (processJob env j w))
     = Some (VStr ''completed'')"
proof -
  have "\<forall>k. 1 \<le> k \<and> k \<le> 5 \<longrightarrow> isl (fetchFile_try dead_net u k)" for u
    by (simp add: fetchFile_try_def dead_net_def)
  then have "fst (fetchFile dead_net ''https://raw.example/a.js'')
      = Inl (Error (''Failed to fetch file after 5 attempts: '' @ ''https://raw.example/a.js''))"
    unfolding fetchFile_def by (subst fetchFile_loop_exhausts) simp_all
  then have "fileInfoToAstData env_dead (job_file job1)
     = Inl (Error ''Failed to fetch file after 5 attempts: https://raw.example/a.js'')"
    by (simp add: fileInfoToAstData_def env_dead_def job1_def)
  moreover have "kv_get (job_key (job_id j)) (kv (processJob env j w))
     = Some (VJob (j\<lparr>result := Some ''{}'', status := Completed, updatedAt := Date_now env\<rparr>))"
    by (simp add: processJob_eq kv_get_kv_set job_key_neq_marker_key)
  moreover have "kv_get (marker_key (groupId j) (job_id j)) (kv (processJob env j w))
     = Some (VStr ''completed'')"
    by (simp add: processJob_eq kv_get_kv_set)
  ultimately show ?thesis
    unfolding processJob_world1 by (simp add: kv_get_def)
qed

section \<open>The Enqueuer\<close>

lemma queue_files_unchanged:
  assumes "\<forall>f \<in> set files. \<exists>c cs st.
              fetchGitHubCommits q (ow @ ''/'' @ rp) (path f) = Inr (c # cs)
              \<and> kv_get (metadata_key (ow @ ''/'' @ rp) (path f)) s = Some (VCommit st)
              \<and> sha st = sha c"
  shows "queue_files q ow rp g files n jobs s = (Inr jobs, s)"
  using assms
proof (induction files)
  case Nil
  then show ?case by simp
next
  case (Cons f files)
  then obtain c cs st where
    "fetchGitHubCommits q (ow @ ''/'' @ rp) (path f) = Inr (c # cs)"
    "kv_get (metadata_key (ow @ ''/'' @ rp) (path f)) s = Some (VCommit st)" "sha st = sha c"
    by auto
  moreover from Cons have "queue_files q ow rp g files n jobs s = (Inr jobs, s)" by simp
  ultimately show ?case
    by (simp add: needs_job_def getFileMetadata_def)
qed

text \<open>
  C4. When, for every listed file that is not media, the store holds a fingerprint whose
  \<open>sha\<close> is that of the file's latest commit, the Enqueuer returns its group id with no
  job created and leaves the store exactly as it was: no job record and no membership
  marker is added.
\<close>

theorem enqueue_with_unchanged_fingerprints_is_noop:
  assumes "contents q = Some items" and "fetchFiles items = Inr allFiles"
    and "\<forall>f \<in> set allFiles. getFileType (path f) \<noteq> ''Media'' \<longrightarrow>
           (\<exists>c cs st. fetchGitHubCommits q (ow @ ''/'' @ rp) (path f) = Inr (c # cs)
              \<and> kv_get (metadata_key (ow @ ''/'' @ rp) (path f)) s = Some (VCommit st)
              \<and> sha st = sha c)"
  shows "queueGroupedJobs q ow rp s = (Inr (uuidv4 q 0, []), s)"
proof -
  have "queue_files q ow rp (uuidv4 q 0)
          (filter (\<lambda>fileInfo. getFileType (path fileInfo) \<noteq> ''Media'') allFiles) 1 [] s
        = (Inr [], s)"
    using assms(3) by (intro queue_files_unchanged) simp
  with assms(1,2) show ?thesis
    by (simp add: queueGroupedJobs_def)
qed

lemma lookup_not_a_commit:
  assumes "k \<noteq> k3"
  shows "get_sha (case kv_get k (kv_set k3 v3 (kv_set k2 (VStr ''queued'') (kv_set k1 (VJob j) [])))
                  of None \<Rightarrow> VEmpty | Some v \<Rightarrow> v) = None
         \<and> truthy (case kv_get k (kv_set k3 v3 (kv_set k2 (VStr ''queued'') (kv_set k1 (VJob j) [])))
                    of None \<Rightarrow> VEmpty | Some v \<Rightarrow> v)"
proof -
  have nil: "kv_get k [] = None" by (simp add: kv_get_def)
  show ?thesis using assms by (simp add: kv_get_kv_set nil)
qed

lemma fileTypes:
  "getFileType ''a.js'' = ''JavaScript/TypeScript''"
  "getFileType ''b.png'' = ''Media''"
  "getFileType ''dir/c.json'' = ''JSON''"
  by code_simp+

text \<open>
  C6. For a repository whose listing is the files \<^verbatim>\<open>a.js\<close> and \<^verbatim>\<open>b.png\<close> and the
  directory \<^verbatim>\<open>dir\<close> with the file \<^verbatim>\<open>dir/c.json\<close>, and an empty store, the Enqueuer
  creates exactly two jobs, the first for \<^verbatim>\<open>a.js\<close> and the second for \<^verbatim>\<open>dir/c.json\<close>,
  both queued in the returned group; the store it leaves holds, for each of them, the job
  record, the marker and the fingerprint, and nothing for \<^verbatim>\<open>b.png\<close>.
\<close>

theorem enqueue_skips_media:
  assumes "contents q = Some [FileItem ''a.js'' ua, FileItem ''b.png'' ub,
                              DirItem ''dir'' [FileItem ''dir/c.json'' uc]]"
    and "fetchGitHubCommits q (ow @ ''/'' @ rp) ''a.js'' = Inr (ca # ra)"
    and "fetchGitHubCommits q (ow @ ''/'' @ rp) ''dir/c.json'' = Inr (cc # rc)"
  shows "queueGroupedJobs q ow rp []
     = (Inr (uuidv4 q 0,
             [\<lparr>job_id = uuidv4 q 1, job_file = \<lparr>path = ''a.js'', download_url = ua\<rparr>,
               groupId = uuidv4 q 0, status = Queued, owner = ow, repo = rp,
               createdAt = q_now q, updatedAt = q_now q, result = None\<rparr>,
              \<lparr>job_id = uuidv4 q 2, job_file = \<lparr>path = ''dir/c.json'', download_url = uc\<rparr>,
               groupId = uuidv4 q 0, status = Queued, owner = ow, repo = rp,
               createdAt = q_now q, updatedAt = q_now q, result = None\<rparr>]),
        storeFileMetadata (ow @ ''/'' @ rp) ''dir/c.json'' cc
          (queueJob \<lparr>job_id = uuidv4 q 2,
                     job_file = \<lparr>path = ''dir/c.json'', download_url = uc\<rparr>,
                     groupId = uuidv4 q 0, status = Queued, owner = ow, repo = rp,
                     createdAt = q_now q, updatedAt = q_now q, result = None\<rparr>
             (storeFileMetadata (ow @ ''/'' @ rp) ''a.js'' ca
                (queueJob \<lparr>job_id = uuidv4 q 1,
                           job_file = \<lparr>path = ''a.js'', download_url = ua\<rparr>,
                           groupId = uuidv4 q 0, status = Queued, owner = ow, repo = rp,
                           createdAt = q_now q, updatedAt = q_now q, result = None\<rparr> []))))"
proof -
  let ?ja = "\<lparr>job_id = uuidv4 q 1, job_file = \<lparr>path = ''a.js'', download_url = ua\<rparr>,
               groupId = uuidv4 q 0, status = Queued, owner = ow, repo = rp,
               createdAt = q_now q, updatedAt = q_now q, result = None\<rparr>"
  let ?s1 = "storeFileMetadata (ow @ ''/'' @ rp) ''a.js'' ca (queueJob ?ja [])"
  have first: "needs_job (getFileMetadata (ow @ ''/'' @ rp) ''a.js'' []) (ca # ra) = Inr True"
    by (simp add: needs_job_def getFileMetadata_def kv_get_def)
  have ne: "metadata_key (ow @ ''/'' @ rp) ''dir/c.json'' \<noteq> metadata_key (ow @ ''/'' @ rp) ''a.js''"
    by (simp add: metadata_key_def)
  have "get_sha (getFileMetadata (ow @ ''/'' @ rp) ''dir/c.json'' ?s1) = None
        \<and> truthy (getFileMetadata (ow @ ''/'' @ rp) ''dir/c.json'' ?s1)"
    unfolding getFileMetadata_def storeFileMetadata_def queueJob_def
    by (rule lookup_not_a_commit [OF ne])
  then have second:
    "needs_job (getFileMetadata (ow @ ''/'' @ rp) ''dir/c.json'' ?s1) (cc # rc) = Inr True"
    by (simp add: needs_job_def)
  show ?thesis
    using assms first second
    by (simp add: queueGroupedJobs_def fileTypes Let_def One_nat_def [symmetric]
        del: One_nat_def)
qed

lemma first_call_store:
  "snd (queueGroupedJobs first_call ''acme'' ''site'' [])
     = [(''job:id-a'',
         VJob \<lparr>job_id = ''id-a'',
                job_file = \<lparr>path = ''a.js'', download_url = ''https://raw.example/a.js''\<rparr>,
                groupId = ''id-'', status = Queued, owner = ''acme'', repo = ''site'',
                createdAt = 1000, updatedAt = 1000, result = None\<rparr>),
        (''group:id-:id-a'', VStr ''queued''),
        (''acme/site:a.js:metadata'', VCommit \<lparr>sha = ''sha-of-a.js''\<rparr>),
        (''job:id-aa'',
         VJob \<lparr>job_id = ''id-aa'',
                job_file = \<lparr>path = ''dir/c.json'',
                             download_url = ''https://raw.example/dir/c.json''\<rparr>,
                groupId = ''id-'', status = Queued, owner = ''acme'', repo = ''site'',
                createdAt = 1000, updatedAt = 1000, result = None\<rparr>),
        (''group:id-:id-aa'', VStr ''queued''),
        (''acme/site:dir/c.json:metadata'', VCommit \<lparr>sha = ''sha-of-dir/c.json''\<rparr>)]"
  by code_simp

theorem enqueue_skips_media_witness:
  "fst (queueGroupedJobs first_call ''acme'' ''site'' [])
     = Inr (''id-'',
            [\<lparr>job_id = ''id-a'',
              job_file = \<lparr>path = ''a.js'', download_url = ''https://raw.example/a.js''\<rparr>,
              groupId = ''id-'', status = Queued, owner = ''acme'', repo = ''site'',
              createdAt = 1000, updatedAt = 1000, result = None\<rparr>,
             \<lparr>job_id = ''id-aa'',
              job_file = \<lparr>path = ''dir/c.json'',
                           download_url = ''https://raw.example/dir/c.json''\<rparr>,
              groupId = ''id-'', status = Queued, owner = ''acme'', repo = ''site'',
              createdAt = 1000, updatedAt = 1000, result = None\<rparr>])
   \<and> map fst (snd (queueGroupedJobs first_call ''acme'' ''site'' []))
     = [''job:id-a'', ''group:id-:id-a'', ''acme/site:a.js:metadata'',
        ''job:id-aa'', ''group:id-:id-aa'', ''acme/site:dir/c.json:metadata'']"
proof -
  have c: "contents first_call
      = Some [FileItem ''a.js'' ''https://raw.example/a.js'',
              FileItem ''b.png'' ''https://raw.example/b.png'',
              DirItem ''dir'' [FileItem ''dir/c.json'' ''https://raw.example/dir/c.json'']]"
    by (simp add: first_call_def repo_items_def)
  have a: "fetchGitHubCommits first_call (''acme'' @ ''/'' @ ''site'') ''a.js''
             = Inr (\<lparr>sha = ''sha-of-a.js''\<rparr> # [])"
    by (simp add: first_call_def)
  have b: "fetchGitHubCommits first_call (''acme'' @ ''/'' @ ''site'') ''dir/c.json''
             = Inr (\<lparr>sha = ''sha-of-dir/c.json''\<rparr> # [])"
    by (simp add: first_call_def)
  have u: "uuidv4 first_call 0 = ''id-''" "uuidv4 first_call (Suc 0) = ''id-a''"
    "uuidv4 first_call 2 = ''id-aa''" "q_now first_call = 1000"
    by (simp_all add: first_call_def numeral_2_eq_2)
  from enqueue_skips_media [OF c a b]
  have "fst (queueGroupedJobs first_call ''acme'' ''site'' [])
     = Inr (''id-'',
            [\<lparr>job_id = ''id-a'',
              job_file = \<lparr>path = ''a.js'', download_url = ''https://raw.example/a.js''\<rparr>,
              groupId = ''id-'', status = Queued, owner = ''acme'', repo = ''site'',
              createdAt = 1000, updatedAt = 1000, result = None\<rparr>,
             \<lparr>job_id = ''id-aa'',
              job_file = \<lparr>path = ''dir/c.json'',
                           download_url = ''https://raw.example/dir/c.json''\<rparr>,
              groupId = ''id-'', status = Queued, owner = ''acme'', repo = ''site'',
              createdAt = 1000, updatedAt = 1000, result = None\<rparr>])"
    by (simp add: u)
  then show ?thesis by (simp add: first_call_store)
qed

theorem enqueue_with_unchanged_fingerprints_is_noop_witness:
  "queueGroupedJobs second_call ''acme'' ''site''
       (snd (queueGroupedJobs first_call ''acme'' ''site'' []))
     = (Inr (''id-'', []), snd (queueGroupedJobs first_call ''acme'' ''site'' []))"
proof -
  let ?s1 = "snd (queueGroupedJobs first_call ''acme'' ''site'' [])"
  let ?files = "[\<lparr>path = ''a.js'', download_url = ''https://raw.example/a.js''\<rparr>,
                 \<lparr>path = ''b.png'', download_url = ''https://raw.example/b.png''\<rparr>,
                 \<lparr>path = ''dir/c.json'', download_url = ''https://raw.example/dir/c.json''\<rparr>]"
  have c: "contents second_call = Some repo_items"
    by (simp add: second_call_def first_call_def)
  have f: "fetchFiles repo_items = Inr ?files"
    by (simp add: repo_items_def)
  have k: "kv_get (metadata_key (''acme'' @ ''/'' @ ''site'') ''a.js'') ?s1
             = Some (VCommit \<lparr>sha = ''sha-of-a.js''\<rparr>)"
    "kv_get (metadata_key (''acme'' @ ''/'' @ ''site'') ''dir/c.json'') ?s1
             = Some (VCommit \<lparr>sha = ''sha-of-dir/c.json''\<rparr>)"
    unfolding first_call_store by (simp_all add: kv_get_def metadata_key_def)
  have h: "\<forall>f \<in> set ?files. getFileType (path f) \<noteq> ''Media'' \<longrightarrow>
           (\<exists>c cs st. fetchGitHubCommits second_call (''acme'' @ ''/'' @ ''site'') (path f)
                         = Inr (c # cs)
              \<and> kv_get (metadata_key (''acme'' @ ''/'' @ ''site'') (path f)) ?s1
                   = Some (VCommit st)
              \<and> sha st = sha c)"
    using k by (simp add: fileTypes second_call_def first_call_def)
  have u: "uuidv4 second_call 0 = ''id-''" by (simp add: second_call_def)
  from enqueue_with_unchanged_fingerprints_is_noop [OF c f h] u
  show ?thesis by simp
qed

end
